theory Spec2Isabelle
  imports Complex_Main "HOL-Library.Char_ord"
begin

section \<open>gamey/base.py: actions, observations, states and turn resolution\<close>

subsection \<open>Exceptions\<close>

text \<open>
  Every \<open>raise\<close> of the module is a value \<open>Inl e\<close> of a result type \<open>error + 'a\<close>.
  \<open>Exception\<close> stands for whatever a strategy, a state factory or a game rule raises.
\<close>

datatype error =
    IndexError
  | RuntimeError
  | ValueError
  | KeyError
  | AssertionError
  | Exception string

subsection \<open>The action type: \<open>_ActionType\<close> and \<open>Action\<close>\<close>

text \<open>
  A discrete action class is given by its class attribute \<open>all_actions\<close>. The instances are
  values of type \<open>'a\<close>, compared with \<open>==\<close> (HOL equality).
\<close>

record 'a ActionType =
  all_actions :: "'a list"

text \<open>
  What an expression of the module can evaluate to where an action is expected: an
  instance, or the class object itself.
\<close>

datatype 'a pyobject =
    Instance 'a
  | Class "'a ActionType"

text \<open>\<open>__len__ = lambda cls: len(cls.all_actions)\<close>\<close>

definition len_ActionType :: "'a ActionType \<Rightarrow> nat" where
  "len_ActionType cls = length (all_actions cls)"

text \<open>
  The loop of \<open>_ActionType.__getitem__\<close>:
  \<^verbatim>\<open>
  for j, item in enumerate(cls):
      if j == i:
          return cls
  raise RuntimeError
  \<close>
  \<open>j\<close> is the counter of \<open>enumerate\<close>, the list is what is left of \<open>iter(cls.all_actions)\<close>.
  The value returned is \<open>cls\<close>, as the source has it (\<open>item\<close> is not used).
\<close>

fun getitem_loop :: "'a ActionType \<Rightarrow> int \<Rightarrow> int \<Rightarrow> 'a list \<Rightarrow> error + 'a pyobject" where
  "getitem_loop cls i j [] = Inl RuntimeError"
| "getitem_loop cls i j (item # rest) =
     (if j = i then Inr (Class cls) else getitem_loop cls i (j + 1) rest)"

text \<open>
  \<^verbatim>\<open>
  def __getitem__(cls, i: int):
      if i >= len(cls):
          raise IndexError
      ...
  \<close>
\<close>

definition getitem :: "'a ActionType \<Rightarrow> int \<Rightarrow> error + 'a pyobject" where
  "getitem cls i =
     (if i \<ge> int (len_ActionType cls) then Inl IndexError
      else getitem_loop cls i 0 (all_actions cls))"

text \<open>
  \<open>tuple.index(x)\<close>: the position of the first element equal to \<open>x\<close>, \<open>ValueError\<close> when
  there is none.
\<close>

fun tuple_index :: "'b list \<Rightarrow> 'b \<Rightarrow> error + nat" where
  "tuple_index [] x = Inl ValueError"
| "tuple_index (y # ys) x =
     (if y = x then Inr 0
      else (case tuple_index ys x of Inl e \<Rightarrow> Inl e | Inr k \<Rightarrow> Inr (Suc k)))"

text \<open>
  \<open>Action.to_neurons\<close>, the default for simple discrete actions:
  \<^verbatim>\<open>np.array([int(self == action) for action in type(self)], dtype=np.float64)\<close>
  The class \<open>type(self)\<close> is passed as \<open>cls\<close>. The entries are exactly 0.0 and 1.0, so the
  vector is a list of reals. The attribute \<open>_to_neurons\<close> only caches this value.
\<close>

definition to_neurons :: "'a ActionType \<Rightarrow> 'a \<Rightarrow> real list" where
  "to_neurons cls self = map (\<lambda>action. if self = action then 1 else 0) (all_actions cls)"

text \<open>
  \<^verbatim>\<open>
  @classmethod
  def from_neurons(cls, neurons: Iterable) -> Action:
      return cls[tuple(neurons).index(1)]
  \<close>
\<close>

definition from_neurons :: "'a ActionType \<Rightarrow> real list \<Rightarrow> error + 'a pyobject" where
  "from_neurons cls neurons =
     (case tuple_index neurons 1 of
        Inl e \<Rightarrow> Inl e
      | Inr k \<Rightarrow> getitem cls (int k))"

subsection \<open>Slugs\<close>

text \<open>
  The character classes of \<open>_action_regex_head\<close>, \<open>[A-Za-z0-9.]\<close>, and of
  \<open>_action_regex_tail\<close>, \<open>[A-Za-z0-9_.\-/>]\<close>. A character of a Python string that is not
  ASCII is in neither class, like any other character outside them.
\<close>

definition head_class :: "char \<Rightarrow> bool" where
  "head_class c \<longleftrightarrow>
     (CHR ''A'' \<le> c \<and> c \<le> CHR ''Z'') \<or> (CHR ''a'' \<le> c \<and> c \<le> CHR ''z'') \<or>
     (CHR ''0'' \<le> c \<and> c \<le> CHR ''9'') \<or> c = CHR ''.''"

definition tail_class :: "char \<Rightarrow> bool" where
  "tail_class c \<longleftrightarrow>
     (CHR ''A'' \<le> c \<and> c \<le> CHR ''Z'') \<or> (CHR ''a'' \<le> c \<and> c \<le> CHR ''z'') \<or>
     (CHR ''0'' \<le> c \<and> c \<le> CHR ''9'') \<or> c = CHR ''_'' \<or> c = CHR ''.'' \<or>
     c = CHR ''-'' \<or> c = CHR ''/'' \<or> c = CHR ''>''"

text \<open>
  \<open>fullmatch\<close> of the three compiled patterns: one character of the head class; any number
  of characters of the tail class; \<open>^head tail$\<close>, a head character followed by tail
  characters.
\<close>

fun action_regex_head_fullmatch :: "string \<Rightarrow> bool" where
  "action_regex_head_fullmatch [c] = head_class c"
| "action_regex_head_fullmatch s = False"

definition action_regex_tail_fullmatch :: "string \<Rightarrow> bool" where
  "action_regex_tail_fullmatch s = list_all tail_class s"

fun action_regex_fullmatch :: "string \<Rightarrow> bool" where
  "action_regex_fullmatch [] = False"
| "action_regex_fullmatch (c # cs) = (head_class c \<and> list_all tail_class cs)"

text \<open>
  \<^verbatim>\<open>
  def slugify(self) -> str:
      raw = str(self)
      first_letter = raw[0]
      prefix = '' if _action_regex_head.fullmatch(first_letter) else '0'
      characters = ((c if _action_regex_tail.fullmatch(c) else '-') for c in raw)
      result = f'{prefix}{"".join(characters)}'
      assert _action_regex.fullmatch(result)
      return result
  \<close>
  \<open>str\<close> is the action's \<open>__str__\<close>. \<open>raw[0]\<close> raises \<open>IndexError\<close> on the empty string.
\<close>

definition slugify :: "('a \<Rightarrow> string) \<Rightarrow> 'a \<Rightarrow> error + string" where
  "slugify str self =
     (let raw = str self in
      case raw of
        [] \<Rightarrow> Inl IndexError
      | first_letter # _ \<Rightarrow>
          (let prefix = (if action_regex_head_fullmatch [first_letter] then '''' else ''0'');
               characters = map (\<lambda>c. if action_regex_tail_fullmatch [c] then c else CHR ''-'') raw;
               result = prefix @ characters
           in if action_regex_fullmatch result then Inr result else Inl AssertionError))"

text \<open>An action class with three actions, in this order, used in the examples.\<close>

datatype abc = Act_A | Act_B | Act_C

definition ABC :: "abc ActionType" where
  "ABC = \<lparr>all_actions = [Act_A, Act_B, Act_C]\<rparr>"

subsection \<open>Observations, strategies, players and states\<close>

text \<open>
  \<open>Observation\<close> is an abstract class; the fields that a concrete game adds are the
  extension of the record.
\<close>

record 'a Observation =
  legal_actions :: "'a list"
  is_end :: bool
  reward :: "real option"

text \<open>
  Modelled from the spec: the module \<open>strategizing\<close> (the classes \<open>Strategy\<close> and
  \<open>NiceStrategy\<close>) is imported by base.py and is not among the sources. A strategy
  decides an action for an observation, with the precomputed value-map \<open>extra\<close> when one
  is passed, and the batched variant answers a sequence of observations with a sequence of
  value-maps. Either call may raise.
\<close>

record ('o, 'a, 'q) Strategy =
  decide_action_for_observation :: "'o \<Rightarrow> 'q option \<Rightarrow> error + 'a"
  get_qs_for_observations :: "'o list \<Rightarrow> error + 'q list"

text \<open>
  Modelled from the spec: the batched value-query returns one value-map per observation
  (and does not raise).
\<close>

definition one_q_map_per_observation :: "('o, 'a, 'q) Strategy \<Rightarrow> bool" where
  "one_q_map_per_observation strat \<longleftrightarrow>
     (\<forall>observations. \<exists>q_maps. get_qs_for_observations strat observations = Inr q_maps \<and>
        length q_maps = length observations)"

text \<open>
  \<open>PlayerInfo\<close>. The field \<open>strategy\<close> holds the strategy object; objects are dictionary
  keys by identity, so the field is a handle \<open>'s\<close> and a function from handles to
  \<open>Strategy\<close> records (\<open>impl\<close> below) gives the object's methods. The field \<open>id\<close> is
  named \<open>id_PlayerInfo\<close>.
\<close>

record ('i, 'o, 's) PlayerInfo =
  id_PlayerInfo :: 'i
  observation :: 'o
  strategy :: 's

text \<open>
  \<open>State\<close>. The mapping \<open>player_infos\<close> is a dictionary, iterated in insertion order: a
  list of items. The fields of a concrete game's state are the extension of the record.
\<close>

record ('i, 'o, 's) State =
  is_end :: bool
  player_infos :: "('i \<times> ('i, 'o, 's) PlayerInfo) list"

subsection \<open>Naive dispatch: \<open>State.get_next_state\<close>\<close>

text \<open>
  The dictionary comprehension
  \<^verbatim>\<open>
  player_id_to_action = {
      id: player_info.strategy.decide_action_for_observation(player_info.observation)
      for id, player_info in self.player_infos.items() if not player_info.observation.is_end
  }
  \<close>
  over the items of \<open>player_infos\<close>, in order; the first call that raises ends it.
\<close>

fun State_player_id_to_action ::
  "('s \<Rightarrow> (('a, 'y) Observation_scheme, 'a, 'q) Strategy) \<Rightarrow>
   ('i \<times> ('i, ('a, 'y) Observation_scheme, 's) PlayerInfo) list \<Rightarrow> error + ('i \<times> 'a) list" where
  "State_player_id_to_action impl [] = Inr []"
| "State_player_id_to_action impl ((player_id, player_info) # items) =
     (if \<not> Observation.is_end (observation player_info) then
        (case decide_action_for_observation (impl (strategy player_info))
                (observation player_info) None of
           Inl e \<Rightarrow> Inl e
         | Inr action \<Rightarrow>
             (case State_player_id_to_action impl items of
                Inl e \<Rightarrow> Inl e
              | Inr player_id_to_action \<Rightarrow> Inr ((player_id, action) # player_id_to_action)))
      else State_player_id_to_action impl items)"

text \<open>
  \<open>get_next_state_from_actions\<close> is abstract: the game's rule is a parameter, a function of
  the state and the dictionary of actions.
\<close>

definition State_get_next_state ::
  "('s \<Rightarrow> (('a, 'y) Observation_scheme, 'a, 'q) Strategy) \<Rightarrow>
   (('i, ('a, 'y) Observation_scheme, 's, 'z) State_scheme \<Rightarrow> ('i \<times> 'a) list \<Rightarrow> error + 'r) \<Rightarrow>
   ('i, ('a, 'y) Observation_scheme, 's, 'z) State_scheme \<Rightarrow> error + 'r" where
  "State_get_next_state impl get_next_state_from_actions self =
     (case State_player_id_to_action impl (player_infos self) of
        Inl e \<Rightarrow> Inl e
      | Inr player_id_to_action \<Rightarrow> get_next_state_from_actions self player_id_to_action)"

subsection \<open>Batched dispatch: \<open>NiceState.get_next_state\<close>\<close>

text \<open>
  \<open>more_itertools.map_reduce(iterable, keyfunc, reducefunc=tuple)\<close>: a
  \<open>defaultdict(list)\<close> in which each item is appended to the list of its key; a new key
  goes after the keys already there. \<open>tuple\<close> leaves the order of each list as it is.
\<close>

fun append_to_key :: "'k \<Rightarrow> 'v \<Rightarrow> ('k \<times> 'v list) list \<Rightarrow> ('k \<times> 'v list) list" where
  "append_to_key key v [] = [(key, [v])]"
| "append_to_key key v ((k, vs) # ret) =
     (if k = key then (k, vs @ [v]) # ret else (k, vs) # append_to_key key v ret)"

fun map_reduce_loop :: "('v \<Rightarrow> 'k) \<Rightarrow> 'v list \<Rightarrow> ('k \<times> 'v list) list \<Rightarrow> ('k \<times> 'v list) list" where
  "map_reduce_loop keyfunc [] ret = ret"
| "map_reduce_loop keyfunc (item # iterable) ret =
     map_reduce_loop keyfunc iterable (append_to_key (keyfunc item) item ret)"

definition map_reduce :: "('v \<Rightarrow> 'k) \<Rightarrow> 'v list \<Rightarrow> ('k \<times> 'v list) list" where
  "map_reduce keyfunc iterable = map_reduce_loop keyfunc iterable []"

text \<open>
  The loop over the strategy groups:
  \<^verbatim>\<open>
  for strategy, ids_and_player_infos in strategy_to_ids_and_player_infos.items():
      ids, player_infos = zip(*ids_and_player_infos)
      observations = tuple(player_info.observation for player_info in player_infos)
      q_maps = strategy.get_qs_for_observations(observations)
      player_id_to_q_map.update(zip(ids, q_maps))
  \<close>
  The first component of the result is the list of the calls of
  \<open>get_qs_for_observations\<close> that were made, in order, each with the strategy and its
  argument; the second is \<open>player_id_to_q_map\<close> after the loop, or the exception.
  Unpacking \<open>zip(*())\<close> into two names raises \<open>ValueError\<close>. \<open>zip(ids, q_maps)\<close> stops
  at the shorter sequence, and a later pair of \<open>update\<close> overwrites an earlier one.
  The loop variables \<open>strategy\<close> and \<open>player_infos\<close> are \<open>strat\<close> and \<open>infos\<close> here.
\<close>

fun q_map_loop ::
  "('s \<Rightarrow> ('o, 'a, 'q) Strategy) \<Rightarrow> ('s \<times> ('i \<times> ('i, 'o, 's) PlayerInfo) list) list \<Rightarrow>
   ('i \<rightharpoonup> 'q) \<Rightarrow> ('s \<times> 'o list) list \<times> (error + ('i \<rightharpoonup> 'q))" where
  "q_map_loop impl [] player_id_to_q_map = ([], Inr player_id_to_q_map)"
| "q_map_loop impl ((strat, ids_and_player_infos) # groups) player_id_to_q_map =
     (if ids_and_player_infos = [] then ([], Inl ValueError)
      else
        (let ids = map fst ids_and_player_infos;
             infos = map snd ids_and_player_infos;
             observations = map observation infos
         in case get_qs_for_observations (impl strat) observations of
              Inl e \<Rightarrow> ([(strat, observations)], Inl e)
            | Inr q_maps \<Rightarrow>
                (let (calls, result) =
                       q_map_loop impl groups (player_id_to_q_map(ids [\<mapsto>] q_maps))
                 in ((strat, observations) # calls, result))))"

text \<open>
  The first half of \<open>NiceState.get_next_state\<close>: the grouping by strategy and the loop,
  started with the empty dictionary.
\<close>

definition NiceState_q_maps ::
  "('s \<Rightarrow> ('o, 'a, 'q) Strategy) \<Rightarrow> ('i, 'o, 's, 'z) State_scheme \<Rightarrow>
   ('s \<times> 'o list) list \<times> (error + ('i \<rightharpoonup> 'q))" where
  "NiceState_q_maps impl self =
     (let strategy_to_ids_and_player_infos =
            map_reduce (\<lambda>id_and_player_info. strategy (snd id_and_player_info))
              (player_infos self)
      in q_map_loop impl strategy_to_ids_and_player_infos Map.empty)"

text \<open>
  The second dictionary comprehension:
  \<^verbatim>\<open>
  player_id_to_action = {
      id: player_info.strategy.decide_action_for_observation(
          player_info.observation, extra=player_id_to_q_map[id]) for id, player_info in
      self.player_infos.items() if not player_info.observation.is_end
  }
  \<close>
  \<open>player_id_to_q_map[id]\<close> raises \<open>KeyError\<close> for a missing key, before the strategy is
  called.
\<close>

fun NiceState_player_id_to_action ::
  "('s \<Rightarrow> (('a, 'y) Observation_scheme, 'a, 'q) Strategy) \<Rightarrow> ('i \<rightharpoonup> 'q) \<Rightarrow>
   ('i \<times> ('i, ('a, 'y) Observation_scheme, 's) PlayerInfo) list \<Rightarrow> error + ('i \<times> 'a) list" where
  "NiceState_player_id_to_action impl player_id_to_q_map [] = Inr []"
| "NiceState_player_id_to_action impl player_id_to_q_map ((player_id, player_info) # items) =
     (if \<not> Observation.is_end (observation player_info) then
        (case player_id_to_q_map player_id of
           None \<Rightarrow> Inl KeyError
         | Some q_map \<Rightarrow>
             (case decide_action_for_observation (impl (strategy player_info))
                     (observation player_info) (Some q_map) of
                Inl e \<Rightarrow> Inl e
              | Inr action \<Rightarrow>
                  (case NiceState_player_id_to_action impl player_id_to_q_map items of
                     Inl e \<Rightarrow> Inl e
                   | Inr player_id_to_action \<Rightarrow> Inr ((player_id, action) # player_id_to_action))))
      else NiceState_player_id_to_action impl player_id_to_q_map items)"

definition NiceState_get_next_state ::
  "('s \<Rightarrow> (('a, 'y) Observation_scheme, 'a, 'q) Strategy) \<Rightarrow>
   (('i, ('a, 'y) Observation_scheme, 's, 'z) State_scheme \<Rightarrow> ('i \<times> 'a) list \<Rightarrow> error + 'r) \<Rightarrow>
   ('i, ('a, 'y) Observation_scheme, 's, 'z) State_scheme \<Rightarrow> error + 'r" where
  "NiceState_get_next_state impl get_next_state_from_actions self =
     (case snd (NiceState_q_maps impl self) of
        Inl e \<Rightarrow> Inl e
      | Inr player_id_to_q_map \<Rightarrow>
          (case NiceState_player_id_to_action impl player_id_to_q_map (player_infos self) of
             Inl e \<Rightarrow> Inl e
           | Inr player_id_to_action \<Rightarrow> get_next_state_from_actions self player_id_to_action))"

subsection \<open>Rollouts: \<open>State.iterate_states\<close>\<close>

text \<open>
  \<^verbatim>\<open>
  def iterate_states(self) -> Iterator[State]:
      state = self
      while state.player_infos:
          yield state
          state = state.get_next_state()
  \<close>
  A generator object is in one of three situations: created and not started (it holds
  \<open>self\<close>), suspended at the \<open>yield\<close> (it holds the local \<open>state\<close>), or finished.
  One call of \<open>next\<close> resumes it and either yields a state, ends the iteration or raises.
\<close>

datatype 'st generator =
    Created 'st
  | Suspended 'st
  | Finished

datatype 'st resumption =
    Yield 'st
  | StopIteration
  | Raise error

text \<open>The test of the \<open>while\<close> and the \<open>yield\<close>: a mapping is true when it is not empty.\<close>

definition while_test ::
  "('i, 'o, 's, 'z) State_scheme \<Rightarrow>
   ('i, 'o, 's, 'z) State_scheme resumption \<times> ('i, 'o, 's, 'z) State_scheme generator" where
  "while_test state =
     (if player_infos state \<noteq> [] then (Yield state, Suspended state)
      else (StopIteration, Finished))"

text \<open>
  One \<open>next\<close> on the generator. \<open>get_next_state\<close> is the method of the state's class
  (\<open>State.get_next_state\<close>, \<open>NiceState.get_next_state\<close> with a game's rule), a
  parameter. The first component of the result lists the states on which
  \<open>get_next_state\<close> was called during this resumption.
\<close>

fun iterate_states_next ::
  "(('i, 'o, 's, 'z) State_scheme \<Rightarrow> error + ('i, 'o, 's, 'z) State_scheme) \<Rightarrow>
   ('i, 'o, 's, 'z) State_scheme generator \<Rightarrow>
   ('i, 'o, 's, 'z) State_scheme list \<times>
   ('i, 'o, 's, 'z) State_scheme resumption \<times> ('i, 'o, 's, 'z) State_scheme generator" where
  "iterate_states_next get_next_state (Created self) = ([], while_test self)"
| "iterate_states_next get_next_state (Suspended state) =
     ([state],
      (case get_next_state state of
         Inl e \<Rightarrow> (Raise e, Finished)
       | Inr state' \<Rightarrow> while_test state'))"
| "iterate_states_next get_next_state Finished = ([], StopIteration, Finished)"

text \<open>
  A consumer that calls \<open>next\<close> at most \<open>k\<close> times and stops at the end of the iteration
  or at an exception: the states on which \<open>get_next_state\<close> was called, the states
  yielded, and the exception when one was raised.
\<close>

fun consume ::
  "nat \<Rightarrow> (('i, 'o, 's, 'z) State_scheme \<Rightarrow> error + ('i, 'o, 's, 'z) State_scheme) \<Rightarrow>
   ('i, 'o, 's, 'z) State_scheme generator \<Rightarrow>
   ('i, 'o, 's, 'z) State_scheme list \<times> ('i, 'o, 's, 'z) State_scheme list \<times> error option" where
  "consume 0 get_next_state g = ([], [], None)"
| "consume (Suc k) get_next_state g =
     (case iterate_states_next get_next_state g of
        (called, Yield state, g') \<Rightarrow>
          (case consume k get_next_state g' of
             (called', yielded, err) \<Rightarrow> (called @ called', state # yielded, err))
      | (called, StopIteration, g') \<Rightarrow> (called, [], None)
      | (called, Raise e, g') \<Rightarrow> (called, [], Some e))"

text \<open>
  \<open>itertools.islice(it, stop)\<close>, consumed to its end: at most \<open>stop\<close> calls of \<open>next\<close>.
\<close>

definition islice ::
  "(('i, 'o, 's, 'z) State_scheme \<Rightarrow> error + ('i, 'o, 's, 'z) State_scheme) \<Rightarrow>
   ('i, 'o, 's, 'z) State_scheme generator \<Rightarrow> nat \<Rightarrow>
   ('i, 'o, 's, 'z) State_scheme list \<times> error option" where
  "islice get_next_state g stop = snd (consume stop get_next_state g)"

text \<open>
  The whole iteration, which need not end: \<open>None\<close> when \<open>next\<close> yields for ever.
\<close>

partial_function (option) exhaust ::
  "(('i, 'o, 's, 'z) State_scheme \<Rightarrow> error + ('i, 'o, 's, 'z) State_scheme) \<Rightarrow>
   ('i, 'o, 's, 'z) State_scheme generator \<Rightarrow>
   (('i, 'o, 's, 'z) State_scheme list \<times> error option) option" where
  "exhaust get_next_state g =
     (case snd (iterate_states_next get_next_state g) of
        (Yield state, g') \<Rightarrow>
          Option.bind (exhaust get_next_state g')
            (\<lambda>rest. Some (state # fst rest, snd rest))
      | (StopIteration, g') \<Rightarrow> Some ([], None)
      | (Raise e, g') \<Rightarrow> Some ([], Some e))"

declare exhaust.simps [code]

text \<open>
  \<open>more_itertools.islice_extended(it)[:stop]\<close>, consumed to its end. For \<open>stop >= 0\<close> it
  is \<open>islice(it, stop)\<close>. For a negative \<open>stop\<close> the library keeps the last \<open>-stop\<close>
  items back: everything but the last \<open>-stop\<close> items is yielded, and the iteration is
  read to its end.
\<close>

definition islice_extended ::
  "(('i, 'o, 's, 'z) State_scheme \<Rightarrow> error + ('i, 'o, 's, 'z) State_scheme) \<Rightarrow>
   ('i, 'o, 's, 'z) State_scheme generator \<Rightarrow> int \<Rightarrow>
   (('i, 'o, 's, 'z) State_scheme list \<times> error option) option" where
  "islice_extended get_next_state g stop =
     (if 0 \<le> stop then Some (islice get_next_state g (nat stop))
      else
        Option.bind (exhaust get_next_state g)
          (\<lambda>whole. Some (take (length (fst whole) - nat (- stop)) (fst whole), snd whole)))"

subsection \<open>The training driver: \<open>State.train\<close>\<close>

text \<open>
  The body of
  \<^verbatim>\<open>
  for i in range(n):
      print(f'Training round {i}...')
      state: State = state_factory()
      yield from more_itertools.islice_extended(state.iterate_states())[:max_game_length]
  print('Done training.')
  \<close>
  with the generator \<open>train\<close> consumed to its end. The result lists, rollout by rollout, the
  states yielded (what \<open>train\<close> yields is their concatenation) and gives the exception that
  ended the run, if any; it is \<open>None\<close> when a rollout never ends. \<open>state_factory\<close> takes
  the number of the round: it is called once in each round, and what it returns may differ
  from call to call. The two \<open>print\<close> calls are left out.
\<close>

fun train_loop ::
  "(('i, 'o, 's, 'z) State_scheme \<Rightarrow> error + ('i, 'o, 's, 'z) State_scheme) \<Rightarrow>
   (nat \<Rightarrow> error + ('i, 'o, 's, 'z) State_scheme) \<Rightarrow> int \<Rightarrow> nat list \<Rightarrow>
   (('i, 'o, 's, 'z) State_scheme list list \<times> error option) option" where
  "train_loop get_next_state state_factory max_game_length [] = Some ([], None)"
| "train_loop get_next_state state_factory max_game_length (i # rounds) =
     (case state_factory i of
        Inl e \<Rightarrow> Some ([], Some e)
      | Inr state \<Rightarrow>
          (case islice_extended get_next_state (Created state) max_game_length of
             None \<Rightarrow> None
           | Some (yielded, Some e) \<Rightarrow> Some ([yielded], Some e)
           | Some (yielded, None) \<Rightarrow>
               (case train_loop get_next_state state_factory max_game_length rounds of
                  None \<Rightarrow> None
                | Some (rollouts, err) \<Rightarrow> Some (yielded # rollouts, err))))"

text \<open>
  \<^verbatim>\<open>
  state_factory = ((lambda: cls.make_initial(strategies)) if state_factory is None
                         else state_factory)
  \<close>
  \<open>range(n)\<close> is empty for \<open>n <= 0\<close>.
\<close>

definition train ::
  "(('i, 'o, 's, 'z) State_scheme \<Rightarrow> error + ('i, 'o, 's, 'z) State_scheme) \<Rightarrow>
   ('t \<Rightarrow> nat \<Rightarrow> error + ('i, 'o, 's, 'z) State_scheme) \<Rightarrow> 't \<Rightarrow> int \<Rightarrow> int \<Rightarrow>
   (nat \<Rightarrow> error + ('i, 'o, 's, 'z) State_scheme) option \<Rightarrow>
   (('i, 'o, 's, 'z) State_scheme list list \<times> error option) option" where
  "train get_next_state make_initial strategies n max_game_length state_factory =
     (let state_factory' =
            (case state_factory of None \<Rightarrow> (\<lambda>i. make_initial strategies i) | Some f \<Rightarrow> f)
      in train_loop get_next_state state_factory' max_game_length [0..<nat n])"

subsection \<open>A small game for the examples\<close>

text \<open>
  Three observations over the actions of \<open>ABC\<close>, two strategies (value-maps are lists of
  action and value), and a state with three players, the first and the third sharing the
  strategy object 0, the second with a terminal observation.
\<close>

definition live_observation :: "abc Observation" where
  "live_observation = \<lparr>legal_actions = [Act_A, Act_B], Observation.is_end = False, reward = None\<rparr>"

definition other_observation :: "abc Observation" where
  "other_observation = \<lparr>legal_actions = [Act_C, Act_B], Observation.is_end = False, reward = None\<rparr>"

definition terminal_observation :: "abc Observation" where
  "terminal_observation = \<lparr>legal_actions = [], Observation.is_end = True, reward = Some 1\<rparr>"

definition zero_q_maps :: "abc Observation list \<Rightarrow> error + (abc \<times> real) list list" where
  "zero_q_maps observations =
     Inr (map (\<lambda>obs. map (\<lambda>action. (action, 0)) (legal_actions obs)) observations)"

definition first_legal :: "(abc Observation, abc, (abc \<times> real) list) Strategy" where
  "first_legal =
     \<lparr>decide_action_for_observation =
        (\<lambda>obs extra. case legal_actions obs of
                        [] \<Rightarrow> Inl (Exception ''no legal action'')
                      | action # _ \<Rightarrow> Inr action),
      get_qs_for_observations = zero_q_maps\<rparr>"

definition last_legal :: "(abc Observation, abc, (abc \<times> real) list) Strategy" where
  "last_legal =
     \<lparr>decide_action_for_observation =
        (\<lambda>obs extra. case rev (legal_actions obs) of
                        [] \<Rightarrow> Inl (Exception ''no legal action'')
                      | action # _ \<Rightarrow> Inr action),
      get_qs_for_observations = zero_q_maps\<rparr>"

definition example_impl :: "nat \<Rightarrow> (abc Observation, abc, (abc \<times> real) list) Strategy" where
  "example_impl handle = (if handle = 0 then first_legal else last_legal)"

definition example_state :: "(nat, abc Observation, nat) State" where
  "example_state =
     \<lparr>State.is_end = False,
      player_infos =
        [(1, \<lparr>id_PlayerInfo = 1, observation = live_observation, strategy = 0\<rparr>),
         (2, \<lparr>id_PlayerInfo = 2, observation = terminal_observation, strategy = 1\<rparr>),
         (3, \<lparr>id_PlayerInfo = 3, observation = other_observation, strategy = 0\<rparr>)]\<rparr>"

text \<open>
  A rule for \<open>get_next_state_from_actions\<close>: the game is over after one round. A player
  who has acted gets the terminal observation, a player who has not is dropped.
\<close>

definition example_rule ::
  "(nat, abc Observation, nat) State \<Rightarrow> (nat \<times> abc) list \<Rightarrow>
   error + (nat, abc Observation, nat) State" where
  "example_rule self player_id_to_action =
     Inr (self\<lparr>State.is_end := True,
               player_infos :=
                 filter (\<lambda>item. fst item \<in> set (map fst player_id_to_action))
                   (map (\<lambda>item. (fst item, (snd item)\<lparr>observation := terminal_observation\<rparr>))
                      (player_infos self))\<rparr>)"

definition example_state_over :: "(nat, abc Observation, nat) State" where
  "example_state_over =
     \<lparr>State.is_end = True,
      player_infos =
        [(1, \<lparr>id_PlayerInfo = 1, observation = terminal_observation, strategy = 0\<rparr>),
         (3, \<lparr>id_PlayerInfo = 3, observation = terminal_observation, strategy = 0\<rparr>)]\<rparr>"

definition example_state_empty :: "(nat, abc Observation, nat) State" where
  "example_state_empty = \<lparr>State.is_end = True, player_infos = []\<rparr>"

text \<open>
  A strategy that uses its value-map: it takes the action with the highest value, from the
  value-map passed as \<open>extra\<close> or, without one, from the value-map it computes for the
  observation itself. Its batched query computes that same value-map for each observation.
\<close>

definition example_score :: "abc \<Rightarrow> real" where
  "example_score action = (case action of Act_A \<Rightarrow> 0 | Act_B \<Rightarrow> 1 | Act_C \<Rightarrow> 2)"

definition scored_q_map :: "abc Observation \<Rightarrow> (abc \<times> real) list" where
  "scored_q_map obs = map (\<lambda>action. (action, example_score action)) (legal_actions obs)"

fun best_action :: "(abc \<times> real) list \<Rightarrow> error + abc" where
  "best_action [] = Inl (Exception ''no legal action'')"
| "best_action [(action, v)] = Inr action"
| "best_action ((action, v) # (action', v') # q_map) =
     (if v < v' then best_action ((action', v') # q_map)
      else best_action ((action, v) # q_map))"

definition greedy :: "(abc Observation, abc, (abc \<times> real) list) Strategy" where
  "greedy =
     \<lparr>decide_action_for_observation =
        (\<lambda>obs extra. best_action (case extra of None \<Rightarrow> scored_q_map obs
                                                | Some q_map \<Rightarrow> q_map)),
      get_qs_for_observations = (\<lambda>observations. Inr (map scored_q_map observations))\<rparr>"

definition greedy_impl :: "nat \<Rightarrow> (abc Observation, abc, (abc \<times> real) list) Strategy" where
  "greedy_impl handle = greedy"

section \<open>Properties\<close>

subsection \<open>Encoding and decoding actions\<close>

lemma getitem_loop_hit:
  "j \<le> i \<Longrightarrow> i < j + int (length xs) \<Longrightarrow> getitem_loop cls i j xs = Inr (Class cls)"
  by (induction xs arbitrary: j) auto

lemma getitem_loop_not_ValueError: "getitem_loop cls i j xs \<noteq> Inl ValueError"
  by (induction xs arbitrary: j) auto

lemma getitem_loop_not_Instance: "getitem_loop cls i j xs \<noteq> Inr (Instance a)"
  by (induction xs arbitrary: j) auto

lemma tuple_index_ValueError_iff: "tuple_index xs x = Inl ValueError \<longleftrightarrow> x \<notin> set xs"
  by (induction xs) (auto split: sum.splits)

lemma tuple_index_first:
  "x \<in> set xs \<Longrightarrow> tuple_index xs x = Inr (length (takeWhile (\<lambda>y. y \<noteq> x) xs))"
  by (induction xs) auto

lemma tuple_index_one_hot:
  "a \<in> set xs \<Longrightarrow>
   tuple_index (map (\<lambda>action. if a = action then (1::real) else 0) xs) 1 =
     Inr (length (takeWhile (\<lambda>action. action \<noteq> a) xs))"
  by (induction xs) auto

lemma first_position_less:
  "x \<in> set xs \<Longrightarrow> length (takeWhile (\<lambda>y. y \<noteq> x) xs) < length xs"
  by (induction xs) auto

text \<open>
  The default encoding has one entry for each action of the class, and for the action at
  position \<open>k\<close> of a duplicate-free \<open>all_actions\<close> it is 1 at \<open>k\<close> and 0 elsewhere.
\<close>

lemma to_neurons_length: "length (to_neurons cls a) = len_ActionType cls"
  by (simp add: to_neurons_def len_ActionType_def)

lemma one_hot_map:
  "distinct xs \<Longrightarrow> k < length xs \<Longrightarrow>
   map (\<lambda>action. if xs ! k = action then (1::real) else 0) xs = (replicate (length xs) 0)[k := 1]"
  by (auto simp: list_eq_iff_nth_eq nth_list_update nth_eq_iff_index_eq)

lemma to_neurons_one_hot:
  "distinct (all_actions cls) \<Longrightarrow> k < len_ActionType cls \<Longrightarrow>
   to_neurons cls (all_actions cls ! k) = (replicate (len_ActionType cls) 0)[k := 1]"
  by (simp add: to_neurons_def len_ActionType_def one_hot_map)

text \<open>
  Decoding the encoding of an action of the class returns the class object, for every
  class and action; \<open>from_neurons\<close> returns an instance for no input at all.
\<close>

lemma from_neurons_to_neurons_Class:
  assumes "a \<in> set (all_actions cls)"
  shows "from_neurons cls (to_neurons cls a) = Inr (Class cls)"
proof -
  let ?k = "length (takeWhile (\<lambda>action. action \<noteq> a) (all_actions cls))"
  have k: "?k < length (all_actions cls)"
    using assms by (rule first_position_less)
  have "getitem cls (int ?k) = Inr (Class cls)"
    using k getitem_loop_hit[of 0 "int ?k" "all_actions cls" cls]
    by (simp add: getitem_def len_ActionType_def)
  then show ?thesis
    using assms by (simp add: from_neurons_def to_neurons_def tuple_index_one_hot)
qed

lemma from_neurons_never_Instance: "from_neurons cls neurons \<noteq> Inr (Instance a)"
  by (auto simp: from_neurons_def getitem_def getitem_loop_not_Instance split: sum.splits)

text \<open>
  Claim C1. For every action \<open>a\<close> of a discrete action type with the default encoding,
  \<open>from_neurons(to_neurons(a))\<close> should return \<open>a\<close>. The code does not: for the class
  with the actions A, B, C the encoding of A decodes to the class object, because
  \<open>__getitem__\<close> returns \<open>cls\<close> where the enumerated \<open>item\<close> was meant.
\<close>

theorem from_neurons_to_neurons_returns_class:
  "from_neurons ABC (to_neurons ABC Act_A) = Inr (Class ABC) \<and>
   from_neurons ABC (to_neurons ABC Act_A) \<noteq> Inr (Instance Act_A)"
  by (simp add: from_neurons_def to_neurons_def getitem_def len_ActionType_def ABC_def)

text \<open>
  Claim C9. For the action space A, B, C the encoding of A is \<open>[1,0,0]\<close>, as claimed
  (and \<open>to_neurons_one_hot\<close> gives the one-hot shape in general), but
  \<open>from_neurons([0,1,0])\<close> returns the class object and not B.
\<close>

theorem three_actions_scenario:
  "to_neurons ABC Act_A = [1, 0, 0] \<and>
   from_neurons ABC [0, 1, 0] = Inr (Class ABC) \<and>
   from_neurons ABC [0, 1, 0] \<noteq> Inr (Instance Act_B)"
  by (simp add: from_neurons_def to_neurons_def getitem_def len_ActionType_def ABC_def)

text \<open>
  Claim C6, as stated: \<open>from_neurons\<close> fails with \<open>ValueError\<close> whenever the vector has no
  unique active entry. It fails at the vector \<open>[1,1,0]\<close>, which has two: \<open>index(1)\<close>
  takes the first and no error is raised.
\<close>

theorem from_neurons_two_active_no_error:
  "from_neurons ABC [1, 1, 0] = Inr (Class ABC) \<and> from_neurons ABC [1, 1, 0] \<noteq> Inl ValueError"
  by (simp add: from_neurons_def getitem_def len_ActionType_def ABC_def)

text \<open>
  Claim C6, amended: \<open>from_neurons\<close> fails with \<open>ValueError\<close> exactly when no entry of
  the vector equals 1; when one or more entries equal 1, the position of the first is used
  to index the class; and indexing the class at or past its length fails with
  \<open>IndexError\<close>.
\<close>

theorem from_neurons_error_cases:
  "(from_neurons cls neurons = Inl ValueError \<longleftrightarrow> 1 \<notin> set neurons) \<and>
   (1 \<in> set neurons \<longrightarrow>
      from_neurons cls neurons = getitem cls (int (length (takeWhile (\<lambda>x. x \<noteq> 1) neurons)))) \<and>
   (int (len_ActionType cls) \<le> i \<longrightarrow> getitem cls i = Inl IndexError)"
proof (intro conjI impI)
  show "from_neurons cls neurons = Inl ValueError \<longleftrightarrow> 1 \<notin> set neurons"
  proof (cases "1 \<in> set neurons")
    case True
    then show ?thesis
      by (simp add: from_neurons_def tuple_index_first getitem_def getitem_loop_not_ValueError)
  next
    case False
    then have "tuple_index neurons 1 = Inl ValueError"
      by (simp add: tuple_index_ValueError_iff)
    with False show ?thesis by (simp add: from_neurons_def)
  qed
next
  assume "1 \<in> set neurons"
  then show "from_neurons cls neurons = getitem cls (int (length (takeWhile (\<lambda>x. x \<noteq> 1) neurons)))"
    by (simp add: from_neurons_def tuple_index_first)
next
  assume "int (len_ActionType cls) \<le> i"
  then show "getitem cls i = Inl IndexError" by (simp add: getitem_def)
qed

theorem from_neurons_error_cases_witness:
  "from_neurons ABC [0, 0, 0] = Inl ValueError \<and>
   from_neurons ABC [0, 1, 1] = getitem ABC 1 \<and>
   getitem ABC 3 = Inl IndexError"
  using from_neurons_error_cases [of ABC "[0, 0, 0]" 3]
    from_neurons_error_cases [of ABC "[0, 1, 1]" 3]
  by (simp add: len_ActionType_def ABC_def)

subsection \<open>Slugs\<close>

lemma head_class_tail_class: "head_class c \<Longrightarrow> tail_class c"
  by (auto simp: head_class_def tail_class_def)

lemma tail_class_dash: "tail_class (CHR ''-'')"
  by (simp add: tail_class_def)

lemma head_class_zero: "head_class (CHR ''0'')"
  by (simp add: head_class_def)

lemma substituted_tail:
  "list_all tail_class (map (\<lambda>c. if tail_class c then c else CHR ''-'') raw)"
  by (induction raw) (auto simp: tail_class_dash)

lemma substituted_id:
  "list_all tail_class s \<Longrightarrow> map (\<lambda>c. if tail_class c then c else CHR ''-'') s = s"
  by (induction s) auto

lemma slugify_unfold:
  "str a = c # cs \<Longrightarrow>
   slugify str a =
     Inr ((if head_class c then [] else ''0'') @
          map (\<lambda>c. if tail_class c then c else CHR ''-'') (c # cs))"
  using substituted_tail[of cs]
  by (auto simp: slugify_def action_regex_tail_fullmatch_def head_class_zero
      head_class_tail_class tail_class_dash)

text \<open>
  Claim C7. For an action whose string is not empty, \<open>slugify\<close> returns the string with
  every character outside the tail class replaced by \<open>-\<close>, after the prefix \<open>0\<close> when
  the first character is outside the head class. The result is not empty, its first
  character is in the head class \<open>[A-Za-z0-9.]\<close> and the others are in the tail class
  \<open>[A-Za-z0-9_.\-/>]\<close>; slugifying the result again returns it unchanged, and so does
  slugifying any string that already matches the pattern.
\<close>

theorem slugify_valid_and_idempotent:
  "(str a \<noteq> [] \<longrightarrow>
      (\<exists>result. slugify str a = Inr result \<and>
         result = (if head_class (hd (str a)) then [] else ''0'') @
                  map (\<lambda>c. if tail_class c then c else CHR ''-'') (str a) \<and>
         result \<noteq> [] \<and> head_class (hd result) \<and> list_all tail_class (tl result) \<and>
         action_regex_fullmatch result \<and>
         slugify (\<lambda>s. s) result = Inr result)) \<and>
   (action_regex_fullmatch (str a) \<longrightarrow> slugify str a = Inr (str a))"
proof (intro conjI impI)
  assume "str a \<noteq> []"
  then obtain c cs where raw: "str a = c # cs" by (cases "str a") auto
  let ?result = "(if head_class c then [] else ''0'') @
                  map (\<lambda>c. if tail_class c then c else CHR ''-'') (c # cs)"
  have r: "slugify str a = Inr ?result" using slugify_unfold[of str a c cs] raw by simp
  have tl: "list_all tail_class (map (\<lambda>c. if tail_class c then c else CHR ''-'') cs)"
    by (rule substituted_tail)
  have m: "action_regex_fullmatch ?result"
    using tl by (auto simp: head_class_zero head_class_tail_class tail_class_dash)
  obtain d ds where res: "?result = d # ds" by (cases ?result) (auto split: if_splits)
  have d: "head_class d" and ds: "list_all tail_class ds" using m res by auto
  have again: "slugify (\<lambda>s. s) ?result = Inr ?result"
    using slugify_unfold[of "\<lambda>s. s" ?result d ds] res d ds
    by (simp add: substituted_id head_class_tail_class)
  show "\<exists>result. slugify str a = Inr result \<and>
         result = (if head_class (hd (str a)) then [] else ''0'') @
                  map (\<lambda>c. if tail_class c then c else CHR ''-'') (str a) \<and>
         result \<noteq> [] \<and> head_class (hd result) \<and> list_all tail_class (tl result) \<and>
         action_regex_fullmatch result \<and>
         slugify (\<lambda>s. s) result = Inr result"
  proof (intro exI conjI)
    show "slugify str a = Inr ?result" by (rule r)
    show "?result = (if head_class (hd (str a)) then [] else ''0'') @
                  map (\<lambda>c. if tail_class c then c else CHR ''-'') (str a)"
      using raw by simp
    show "?result \<noteq> []" by simp
    show "head_class (hd ?result)" using res d by simp
    show "list_all tail_class (tl ?result)" using res ds by simp
    show "action_regex_fullmatch ?result" by (rule m)
    show "slugify (\<lambda>s. s) ?result = Inr ?result" by (rule again)
  qed
next
  assume m: "action_regex_fullmatch (str a)"
  then obtain c cs where raw: "str a = c # cs" by (cases "str a") auto
  with m have "head_class c" "list_all tail_class cs" by auto
  then show "slugify str a = Inr (str a)"
    using slugify_unfold[of str a c cs] raw by (simp add: substituted_id head_class_tail_class)
qed

theorem slugify_valid_and_idempotent_witness:
  "slugify (\<lambda>s. s) ''_hit me!'' = Inr ''0_hit-me-'' \<and>
   slugify (\<lambda>s. s) ''0_hit-me-'' = Inr ''0_hit-me-'' \<and>
   slugify (\<lambda>s. s) ''stand'' = Inr ''stand''"
  using slugify_valid_and_idempotent [of "\<lambda>s. s" "''_hit me!''"] slugify_valid_and_idempotent [of "\<lambda>s. s" "''stand''"]
  by (simp add: head_class_def tail_class_def)

subsection \<open>Grouping by strategy\<close>

text \<open>
  \<open>map_reduce\<close> has one group for each key that occurs, and the group of a key holds the
  items with that key in the order of the input.
\<close>

lemma append_to_key_keys:
  "map fst (append_to_key key v ret) =
     (if key \<in> set (map fst ret) then map fst ret else map fst ret @ [key])"
proof (induction ret)
  case Nil
  then show ?case by simp
next
  case (Cons g ret)
  obtain k vs where g: "g = (k, vs)" by (cases g)
  show ?case using Cons.IH by (simp add: g)
qed

lemma append_to_key_distinct:
  "distinct (map fst ret) \<Longrightarrow> distinct (map fst (append_to_key key v ret))"
  by (simp add: append_to_key_keys)

lemma append_to_key_set:
  "distinct (map fst ret) \<Longrightarrow>
   g \<in> set (append_to_key key v ret) \<longleftrightarrow>
     (fst g \<noteq> key \<and> g \<in> set ret) \<or>
     (fst g = key \<and> snd g = (case map_of ret key of None \<Rightarrow> [] | Some vs \<Rightarrow> vs) @ [v])"
proof (induction ret)
  case Nil
  then show ?case by (cases g) auto
next
  case (Cons h ret)
  then show ?case
    by (cases g; cases h) (auto simp: map_of_eq_None_iff image_iff split: option.splits)
qed

lemma append_to_key_groups:
  assumes "distinct (map fst ret)"
    and "\<forall>g \<in> set ret. snd g = filter (\<lambda>x. keyfunc x = fst g) seen"
    and "set (map fst ret) = keyfunc ` set seen"
  shows "\<forall>g \<in> set (append_to_key (keyfunc item) item ret).
           snd g = filter (\<lambda>x. keyfunc x = fst g) (seen @ [item])"
proof
  fix g assume g: "g \<in> set (append_to_key (keyfunc item) item ret)"
  show "snd g = filter (\<lambda>x. keyfunc x = fst g) (seen @ [item])"
  proof (cases "fst g = keyfunc item")
    case False
    with g assms(1) have "g \<in> set ret" by (simp add: append_to_key_set)
    with assms(2) False show ?thesis by auto
  next
    case True
    with g assms(1) have s: "snd g = (case map_of ret (keyfunc item) of None \<Rightarrow> [] | Some vs \<Rightarrow> vs) @ [item]"
      by (simp add: append_to_key_set)
    show ?thesis
    proof (cases "map_of ret (keyfunc item)")
      case None
      then have "keyfunc item \<notin> keyfunc ` set seen"
        using assms(3) by (simp add: map_of_eq_None_iff)
      then have "filter (\<lambda>x. keyfunc x = keyfunc item) seen = []"
        by (auto simp: filter_empty_conv intro: rev_image_eqI)
      with s None True show ?thesis by simp
    next
      case (Some vs)
      then have "(keyfunc item, vs) \<in> set ret" by (rule map_of_SomeD)
      with assms(2) have "vs = filter (\<lambda>x. keyfunc x = keyfunc item) seen" by auto
      with s Some True show ?thesis by simp
    qed
  qed
qed

lemma map_reduce_loop_inv:
  assumes "distinct (map fst ret)"
    and "\<forall>g \<in> set ret. snd g = filter (\<lambda>x. keyfunc x = fst g) seen"
    and "set (map fst ret) = keyfunc ` set seen"
  shows "distinct (map fst (map_reduce_loop keyfunc iterable ret)) \<and>
         (\<forall>g \<in> set (map_reduce_loop keyfunc iterable ret).
            snd g = filter (\<lambda>x. keyfunc x = fst g) (seen @ iterable)) \<and>
         set (map fst (map_reduce_loop keyfunc iterable ret)) = keyfunc ` set (seen @ iterable)"
  using assms
proof (induction iterable arbitrary: ret seen)
  case Nil
  then show ?case by simp
next
  case (Cons item iterable)
  let ?ret = "append_to_key (keyfunc item) item ret"
  have 1: "distinct (map fst ?ret)" using Cons.prems(1) by (rule append_to_key_distinct)
  have 2: "\<forall>g \<in> set ?ret. snd g = filter (\<lambda>x. keyfunc x = fst g) (seen @ [item])"
    using Cons.prems by (rule append_to_key_groups)
  have 3: "set (map fst ?ret) = keyfunc ` set (seen @ [item])"
    using Cons.prems(3) by (auto simp: append_to_key_keys)
  show ?case using Cons.IH[OF 1 2 3] by simp
qed

lemma map_reduce_groups:
  "distinct (map fst (map_reduce keyfunc iterable)) \<and>
   (\<forall>g \<in> set (map_reduce keyfunc iterable).
      snd g = filter (\<lambda>x. keyfunc x = fst g) iterable) \<and>
   set (map fst (map_reduce keyfunc iterable)) = keyfunc ` set iterable"
  using map_reduce_loop_inv[of "[]" keyfunc "[]" iterable] by (simp add: map_reduce_def)

lemma map_reduce_nonempty:
  assumes "g \<in> set (map_reduce keyfunc iterable)"
  shows "snd g \<noteq> []"
proof -
  have "fst g \<in> keyfunc ` set iterable"
    using assms map_reduce_groups[of keyfunc iterable] by (metis image_eqI set_map)
  then obtain x where "x \<in> set iterable" "keyfunc x = fst g" by auto
  then have "filter (\<lambda>x. keyfunc x = fst g) iterable \<noteq> []"
    by (auto simp: filter_empty_conv)
  then show ?thesis using assms map_reduce_groups[of keyfunc iterable] by auto
qed

subsection \<open>Turn resolution\<close>

lemma q_map_loop_calls:
  "snd (q_map_loop impl groups m) = Inr m' \<Longrightarrow>
   fst (q_map_loop impl groups m) =
     map (\<lambda>g. (fst g, map (\<lambda>item. observation (snd item)) (snd g))) groups"
proof (induction groups arbitrary: m)
  case Nil
  then show ?case by simp
next
  case (Cons g groups)
  obtain strat items where g: "g = (strat, items)" by (cases g)
  show ?case
  proof (cases "items = []")
    case True
    with Cons.prems g show ?thesis by simp
  next
    case False
    show ?thesis
    proof (cases "get_qs_for_observations (impl strat) (map observation (map snd items))")
      case (Inl e)
      with Cons.prems g False show ?thesis by simp
    next
      case (Inr q_maps)
      let ?m = "m(map fst items [\<mapsto>] q_maps)"
      have "snd (q_map_loop impl groups ?m) = Inr m'"
        using Cons.prems g False Inr by (simp add: case_prod_beta)
      then have "fst (q_map_loop impl groups ?m) =
          map (\<lambda>g. (fst g, map (\<lambda>item. observation (snd item)) (snd g))) groups"
        by (rule Cons.IH)
      then show ?thesis using g False Inr by (simp add: case_prod_beta comp_def)
    qed
  qed
qed

lemma q_map_loop_dom:
  assumes "\<forall>g \<in> set groups. snd g \<noteq> [] \<and> one_q_map_per_observation (impl (fst g))"
  shows "\<exists>m'. snd (q_map_loop impl groups m) = Inr m' \<and>
           dom m' = dom m \<union> (\<Union>g \<in> set groups. fst ` set (snd g))"
  using assms
proof (induction groups arbitrary: m)
  case Nil
  then show ?case by simp
next
  case (Cons g groups)
  obtain strat items where g: "g = (strat, items)" by (cases g)
  have ne: "items \<noteq> []" and c: "one_q_map_per_observation (impl strat)"
    using Cons.prems g by auto
  obtain q_maps where q: "get_qs_for_observations (impl strat) (map observation (map snd items)) = Inr q_maps"
    and len: "length q_maps = length items"
    using c unfolding one_q_map_per_observation_def
    by (metis length_map)
  let ?m = "m(map fst items [\<mapsto>] q_maps)"
  have d: "dom ?m = dom m \<union> fst ` set items"
    using len by auto
  have "\<forall>g \<in> set groups. snd g \<noteq> [] \<and> one_q_map_per_observation (impl (fst g))"
    using Cons.prems by simp
  from Cons.IH[OF this, of ?m] obtain m' where
    m': "snd (q_map_loop impl groups ?m) = Inr m'"
      "dom m' = dom ?m \<union> (\<Union>g \<in> set groups. fst ` set (snd g))" by blast
  have "snd (q_map_loop impl (g # groups) m) = Inr m'"
    using g ne q m'(1) by (simp add: case_prod_beta)
  moreover have "dom m' = dom m \<union> (\<Union>g \<in> set (g # groups). fst ` set (snd g))"
    using m'(2) d g by auto
  ultimately show ?case by blast
qed

text \<open>
  Whatever \<open>player_id_to_q_map\<close> holds for a key after the loop was there before it, or
  was paired with that key by the \<open>zip(ids, q_maps)\<close> of some group.
\<close>

lemma map_upds_lookup:
  "(m(xs [\<mapsto>] ys)) k = Some v \<Longrightarrow> m k = Some v \<or> (k, v) \<in> set (zip xs ys)"
  by (auto simp: map_upds_def map_add_Some_iff dest: map_of_SomeD)

lemma q_map_loop_lookup:
  assumes "snd (q_map_loop impl groups m) = Inr m'" and "m' k = Some v"
  shows "m k = Some v \<or>
         (\<exists>g \<in> set groups. \<exists>q_maps.
            get_qs_for_observations (impl (fst g)) (map (\<lambda>item. observation (snd item)) (snd g)) =
              Inr q_maps \<and>
            (k, v) \<in> set (zip (map fst (snd g)) q_maps))"
  using assms
proof (induction groups arbitrary: m)
  case Nil
  then show ?case by simp
next
  case (Cons g groups)
  obtain strat items where g: "g = (strat, items)" by (cases g)
  show ?case
  proof (cases "items = []")
    case True
    with Cons.prems g show ?thesis by simp
  next
    case False
    show ?thesis
    proof (cases "get_qs_for_observations (impl strat) (map observation (map snd items))")
      case (Inl e)
      with Cons.prems g False show ?thesis by simp
    next
      case (Inr q_maps)
      let ?m = "m(map fst items [\<mapsto>] q_maps)"
      have q: "get_qs_for_observations (impl (fst g))
                 (map (\<lambda>item. observation (snd item)) (snd g)) = Inr q_maps"
        using Inr g by (simp add: comp_def)
      have "snd (q_map_loop impl groups ?m) = Inr m'"
        using Cons.prems(1) g False Inr by (simp add: case_prod_beta)
      from Cons.IH[OF this Cons.prems(2)]
      consider "?m k = Some v"
        | "\<exists>g \<in> set groups. \<exists>q_maps.
            get_qs_for_observations (impl (fst g)) (map (\<lambda>item. observation (snd item)) (snd g)) =
              Inr q_maps \<and>
            (k, v) \<in> set (zip (map fst (snd g)) q_maps)"
        by blast
      then show ?thesis
      proof cases
        case 1
        then have "m k = Some v \<or> (k, v) \<in> set (zip (map fst items) q_maps)"
          by (rule map_upds_lookup)
        then show ?thesis using q g by auto
      next
        case 2
        then show ?thesis by auto
      qed
    qed
  qed
qed

lemma decisions_keys:
  "State_player_id_to_action impl items = Inr m \<Longrightarrow>
   map fst m = map fst (filter (\<lambda>item. \<not> Observation.is_end (observation (snd item))) items)"
proof (induction items arbitrary: m)
  case Nil
  then show ?case by simp
next
  case (Cons item items)
  obtain player_id player_info where i: "item = (player_id, player_info)" by (cases item)
  show ?case using Cons.prems Cons.IH
    by (auto simp: i split: if_splits sum.splits)
qed

lemma nice_decisions_keys:
  "NiceState_player_id_to_action impl q items = Inr m \<Longrightarrow>
   map fst m = map fst (filter (\<lambda>item. \<not> Observation.is_end (observation (snd item))) items)"
proof (induction items arbitrary: m)
  case Nil
  then show ?case by simp
next
  case (Cons item items)
  obtain player_id player_info where i: "item = (player_id, player_info)" by (cases item)
  show ?case using Cons.prems Cons.IH
    by (auto simp: i split: if_splits sum.splits option.splits)
qed

lemma nice_decisions_eq:
  assumes "\<forall>item \<in> set items. \<not> Observation.is_end (observation (snd item)) \<longrightarrow>
             (\<exists>q_map. q (fst item) = Some q_map \<and>
                decide_action_for_observation (impl (strategy (snd item)))
                  (observation (snd item)) (Some q_map) =
                decide_action_for_observation (impl (strategy (snd item)))
                  (observation (snd item)) None)"
  shows "NiceState_player_id_to_action impl q items = State_player_id_to_action impl items"
  using assms
proof (induction items)
  case Nil
  then show ?case by simp
next
  case (Cons item items)
  obtain player_id player_info where i: "item = (player_id, player_info)" by (cases item)
  have IH: "NiceState_player_id_to_action impl q items = State_player_id_to_action impl items"
    using Cons by simp
  show ?case
  proof (cases "Observation.is_end (observation player_info)")
    case True
    then show ?thesis using IH by (simp add: i)
  next
    case False
    then obtain q_map where qm: "q player_id = Some q_map"
      and same: "decide_action_for_observation (impl (strategy player_info))
             (observation player_info) (Some q_map) =
          decide_action_for_observation (impl (strategy player_info))
             (observation player_info) None"
      using Cons.prems i by auto
    then show ?thesis using False IH by (simp add: i split: sum.splits)
  qed
qed

lemmas example_defs = example_state_def example_state_over_def example_state_empty_def
  example_rule_def example_impl_def first_legal_def last_legal_def zero_q_maps_def
  live_observation_def other_observation_def terminal_observation_def

lemmas greedy_defs = greedy_impl_def greedy_def scored_q_map_def example_score_def

lemma state_groups_cover:
  assumes "item \<in> set (player_infos self)"
  shows "\<exists>g \<in> set (map_reduce (\<lambda>id_and_player_info. strategy (snd id_and_player_info))
                       (player_infos self)).
           fst g = strategy (snd item) \<and> item \<in> set (snd g)"
proof -
  let ?kf = "\<lambda>id_and_player_info. strategy (snd id_and_player_info)"
  let ?gs = "map_reduce ?kf (player_infos self)"
  have "?kf item \<in> set (map fst ?gs)"
    using assms map_reduce_groups[of ?kf "player_infos self"] by simp
  then obtain g where g: "g \<in> set ?gs" "fst g = ?kf item" by auto
  then have "snd g = filter (\<lambda>x. ?kf x = fst g) (player_infos self)"
    using map_reduce_groups[of ?kf "player_infos self"] by blast
  then have "item \<in> set (snd g)" using assms g(2) by simp
  with g show ?thesis by auto
qed

lemma count_distinct_keys:
  "distinct (map fst gs) \<Longrightarrow>
   length (filter (\<lambda>g. fst g = k) gs) = (if k \<in> set (map fst gs) then 1 else 0)"
  by (induction gs) (auto intro: rev_image_eqI)

lemma state_q_maps_total:
  assumes "\<forall>item \<in> set (player_infos self).
             one_q_map_per_observation (impl (strategy (snd item)))"
  shows "\<exists>q. snd (NiceState_q_maps impl self) = Inr q \<and> dom q = fst ` set (player_infos self)"
proof -
  let ?kf = "\<lambda>id_and_player_info. strategy (snd id_and_player_info)"
  let ?gs = "map_reduce ?kf (player_infos self)"
  have gs: "\<forall>g \<in> set ?gs. snd g = filter (\<lambda>x. ?kf x = fst g) (player_infos self)"
    using map_reduce_groups[of ?kf "player_infos self"] by blast
  have ok: "\<forall>g \<in> set ?gs. snd g \<noteq> [] \<and> one_q_map_per_observation (impl (fst g))"
  proof
    fix g assume g: "g \<in> set ?gs"
    then have ne: "snd g \<noteq> []" by (rule map_reduce_nonempty)
    then obtain item where "item \<in> set (snd g)" by (cases "snd g") auto
    then have "item \<in> set (player_infos self)" "?kf item = fst g"
      using gs g by auto
    then have "one_q_map_per_observation (impl (fst g))" using assms by auto
    with ne show "snd g \<noteq> [] \<and> one_q_map_per_observation (impl (fst g))" by simp
  qed
  from q_map_loop_dom[OF ok, of Map.empty] obtain q where
    q: "snd (q_map_loop impl ?gs Map.empty) = Inr q"
       "dom q = (\<Union>g \<in> set ?gs. fst ` set (snd g))"
    by auto
  have "(\<Union>g \<in> set ?gs. set (snd g)) = set (player_infos self)"
  proof
    show "(\<Union>g \<in> set ?gs. set (snd g)) \<subseteq> set (player_infos self)"
      using gs by auto
    show "set (player_infos self) \<subseteq> (\<Union>g \<in> set ?gs. set (snd g))"
      using state_groups_cover[of _ self] by blast
  qed
  then have "(\<Union>g \<in> set ?gs. fst ` set (snd g)) = fst ` set (player_infos self)"
    by blast
  with q show ?thesis by (simp add: NiceState_q_maps_def)
qed

text \<open>
  The keys of a dictionary are distinct, so each player of a state is known by its id. The
  entry of a player in \<open>player_id_to_q_map\<close> is then the player's own value-map: the one
  that the batched query of its strategy, asked for the observations of the players with
  that strategy in the order of \<open>player_infos\<close>, returned at the player's position.
\<close>

lemma unique_key_item:
  "distinct (map fst items) \<Longrightarrow> x \<in> set items \<Longrightarrow> y \<in> set items \<Longrightarrow> fst x = fst y \<Longrightarrow> x = y"
  by (metis distinct_map inj_onD)

lemma own_q_map:
  assumes d: "distinct (map fst (player_infos self))"
    and q: "snd (NiceState_q_maps impl self) = Inr player_id_to_q_map"
    and item: "item \<in> set (player_infos self)"
    and v: "player_id_to_q_map (fst item) = Some q_map"
  shows "\<exists>q_maps.
           get_qs_for_observations (impl (strategy (snd item)))
             (map (\<lambda>item. observation (snd item))
                (filter (\<lambda>other. strategy (snd other) = strategy (snd item))
                   (player_infos self))) = Inr q_maps \<and>
           (item, q_map) \<in>
             set (zip (filter (\<lambda>other. strategy (snd other) = strategy (snd item))
                         (player_infos self)) q_maps)"
proof -
  let ?kf = "\<lambda>id_and_player_info. strategy (snd id_and_player_info)"
  let ?gs = "map_reduce ?kf (player_infos self)"
  have "snd (q_map_loop impl ?gs Map.empty) = Inr player_id_to_q_map"
    using q by (simp add: NiceState_q_maps_def)
  from q_map_loop_lookup[OF this v]
  obtain g q_maps where g: "g \<in> set ?gs"
    and qs: "get_qs_for_observations (impl (fst g))
               (map (\<lambda>item. observation (snd item)) (snd g)) = Inr q_maps"
    and z: "(fst item, q_map) \<in> set (zip (map fst (snd g)) q_maps)"
    by auto
  have grp: "snd g = filter (\<lambda>x. ?kf x = fst g) (player_infos self)"
    using g map_reduce_groups[of ?kf "player_infos self"] by blast
  obtain j where j: "j < length (snd g)" "j < length q_maps"
    "fst (snd g ! j) = fst item" "q_maps ! j = q_map"
    using z by (auto simp: in_set_zip)
  have "snd g ! j \<in> set (snd g)" using j(1) by simp
  then have mem: "snd g ! j \<in> set (filter (\<lambda>x. ?kf x = fst g) (player_infos self))"
    using grp by simp
  then have "snd g ! j \<in> set (player_infos self)" by simp
  then have same: "snd g ! j = item"
    using d item j(3) by (intro unique_key_item[of "player_infos self"])
  have key: "strategy (snd item) = fst g"
    using mem same by simp
  have "(item, q_map) \<in> set (zip (snd g) q_maps)"
    using j same by (auto simp: in_set_zip)
  then show ?thesis using qs grp key by auto
qed

text \<open>
  Claim C2. Take a state (a dictionary: the ids are distinct) in which every player's
  strategy keeps the contract of the batched variant, its value-query returning one
  value-map per observation, and in which the strategies decide the same with the
  precomputed value-map as without it: whenever the batched query of a strategy, asked for
  the observations of its players, returns \<open>q_maps\<close>, the strategy decides for each of its
  non-terminal players the same with the value-map computed for that player as with none.
  A strategy may depend on the value-map in any other way. Then batched dispatch
  (\<open>NiceState.get_next_state\<close>) and naive dispatch (\<open>State.get_next_state\<close>) give the
  same result for every game rule: the same successor state, or the same exception. The
  example is a strategy that takes the best action of the value-map it is given.
\<close>

theorem batched_dispatch_equals_naive:
  assumes "distinct (map fst (player_infos self))"
    and "\<forall>item \<in> set (player_infos self).
           one_q_map_per_observation (impl (strategy (snd item)))"
    and "\<forall>strat q_maps.
           get_qs_for_observations (impl strat)
             (map (\<lambda>item. observation (snd item))
                (filter (\<lambda>item. strategy (snd item) = strat) (player_infos self))) = Inr q_maps \<longrightarrow>
           (\<forall>(item, q_map) \<in>
                set (zip (filter (\<lambda>item. strategy (snd item) = strat) (player_infos self)) q_maps).
              \<not> Observation.is_end (observation (snd item)) \<longrightarrow>
              decide_action_for_observation (impl strat) (observation (snd item)) (Some q_map) =
              decide_action_for_observation (impl strat) (observation (snd item)) None)"
  shows "NiceState_get_next_state impl get_next_state_from_actions self =
         State_get_next_state impl get_next_state_from_actions self"
proof -
  obtain q where q: "snd (NiceState_q_maps impl self) = Inr q"
    and d: "dom q = fst ` set (player_infos self)"
    using state_q_maps_total[OF assms(2)] by blast
  have "\<exists>q_map. q (fst item) = Some q_map \<and>
          decide_action_for_observation (impl (strategy (snd item)))
            (observation (snd item)) (Some q_map) =
          decide_action_for_observation (impl (strategy (snd item)))
            (observation (snd item)) None"
    if item: "item \<in> set (player_infos self)"
      and live: "\<not> Observation.is_end (observation (snd item))" for item
  proof -
    have "fst item \<in> dom q" using item d by simp
    then obtain q_map where v: "q (fst item) = Some q_map" by blast
    let ?group = "filter (\<lambda>other. strategy (snd other) = strategy (snd item)) (player_infos self)"
    obtain q_maps where qs: "get_qs_for_observations (impl (strategy (snd item)))
             (map (\<lambda>item. observation (snd item)) ?group) = Inr q_maps"
      and z: "(item, q_map) \<in> set (zip ?group q_maps)"
      using own_q_map[OF assms(1) q item v] by blast
    have "\<forall>(other, q_map) \<in> set (zip ?group q_maps).
              \<not> Observation.is_end (observation (snd other)) \<longrightarrow>
              decide_action_for_observation (impl (strategy (snd item)))
                (observation (snd other)) (Some q_map) =
              decide_action_for_observation (impl (strategy (snd item)))
                (observation (snd other)) None"
      using assms(3) qs by blast
    from bspec[OF this z] live
    have "decide_action_for_observation (impl (strategy (snd item)))
            (observation (snd item)) (Some q_map) =
          decide_action_for_observation (impl (strategy (snd item)))
            (observation (snd item)) None"
      by simp
    with v show ?thesis by blast
  qed
  then have "NiceState_player_id_to_action impl q (player_infos self) =
             State_player_id_to_action impl (player_infos self)"
    by (intro nice_decisions_eq) blast
  then show ?thesis using q
    by (simp add: NiceState_get_next_state_def State_get_next_state_def)
qed

theorem batched_dispatch_equals_naive_witness:
  "NiceState_get_next_state greedy_impl (\<lambda>self player_id_to_action. Inr player_id_to_action)
     example_state = Inr [(1, Act_B), (3, Act_C)] \<and>
   State_get_next_state greedy_impl (\<lambda>self player_id_to_action. Inr player_id_to_action)
     example_state = Inr [(1, Act_B), (3, Act_C)] \<and>
   decide_action_for_observation (greedy_impl 0) live_observation
     (Some (scored_q_map other_observation)) \<noteq>
   decide_action_for_observation (greedy_impl 0) live_observation None"
proof -
  have d: "distinct (map fst (player_infos example_state))"
    by (simp add: example_state_def)
  have c: "\<forall>item \<in> set (player_infos example_state).
             one_q_map_per_observation (greedy_impl (strategy (snd item)))"
    by (simp add: one_q_map_per_observation_def greedy_defs)
  have s: "\<forall>strat q_maps.
           get_qs_for_observations (greedy_impl strat)
             (map (\<lambda>item. observation (snd item))
                (filter (\<lambda>item. strategy (snd item) = strat) (player_infos example_state))) =
             Inr q_maps \<longrightarrow>
           (\<forall>(item, q_map) \<in>
                set (zip (filter (\<lambda>item. strategy (snd item) = strat) (player_infos example_state))
                       q_maps).
              \<not> Observation.is_end (observation (snd item)) \<longrightarrow>
              decide_action_for_observation (greedy_impl strat) (observation (snd item)) (Some q_map) =
              decide_action_for_observation (greedy_impl strat) (observation (snd item)) None)"
    by (auto simp: example_defs greedy_defs)
  have n: "State_get_next_state greedy_impl (\<lambda>self player_id_to_action. Inr player_id_to_action)
     example_state = Inr [(1, Act_B), (3, Act_C)]"
    by (simp add: State_get_next_state_def example_defs greedy_defs)
  have u: "decide_action_for_observation (greedy_impl 0) live_observation
     (Some (scored_q_map other_observation)) \<noteq>
   decide_action_for_observation (greedy_impl 0) live_observation None"
    by (simp add: example_defs greedy_defs)
  show ?thesis
    using batched_dispatch_equals_naive [OF d c s, of "\<lambda>self player_id_to_action. Inr player_id_to_action"] n u
    by simp
qed

text \<open>
  Claim C4. The dictionary that \<open>State.get_next_state\<close> and \<open>NiceState.get_next_state\<close>
  pass to \<open>get_next_state_from_actions\<close> is read off with the rule that returns its
  argument. Whenever the rule is reached, the keys of the dictionary are the ids of the
  players whose observation has \<open>is_end\<close> false, in the order of \<open>player_infos\<close>: a
  player with a terminal observation is not among them.
\<close>

theorem player_id_to_action_keys:
  "(State_get_next_state impl (\<lambda>self player_id_to_action. Inr player_id_to_action) self = Inr m
      \<longrightarrow> map fst m =
           map fst (filter (\<lambda>item. \<not> Observation.is_end (observation (snd item)))
                      (player_infos self))) \<and>
   (NiceState_get_next_state impl (\<lambda>self player_id_to_action. Inr player_id_to_action) self = Inr m'
      \<longrightarrow> map fst m' =
           map fst (filter (\<lambda>item. \<not> Observation.is_end (observation (snd item)))
                      (player_infos self)))"
  by (auto simp: State_get_next_state_def NiceState_get_next_state_def
      dest: decisions_keys nice_decisions_keys split: sum.splits)

theorem player_id_to_action_keys_witness:
  "State_get_next_state example_impl (\<lambda>self player_id_to_action. Inr player_id_to_action)
     example_state = Inr [(1, Act_A), (3, Act_C)] \<and>
   NiceState_get_next_state example_impl (\<lambda>self player_id_to_action. Inr player_id_to_action)
     example_state = Inr [(1, Act_A), (3, Act_C)] \<and>
   map fst (filter (\<lambda>item. \<not> Observation.is_end (observation (snd item)))
              (player_infos example_state)) = [1, 3]"
  using player_id_to_action_keys [of example_impl example_state "[(1, Act_A), (3, Act_C)]" "[(1, Act_A), (3, Act_C)]"]
  by (simp add: State_get_next_state_def NiceState_get_next_state_def NiceState_q_maps_def
      map_reduce_def example_defs)

text \<open>
  Claim C5. In a turn of \<open>NiceState.get_next_state\<close> whose value queries all return, the
  calls of \<open>get_qs_for_observations\<close> are: exactly one for each strategy object that some
  player uses, none for any other, and the argument of the call for a strategy is the list
  of the observations of the players with that strategy, in the order of \<open>player_infos\<close>.
  Two players who share a strategy object are served by one call with both observations.
\<close>

theorem one_batched_call_per_strategy:
  assumes "snd (NiceState_q_maps impl self) = Inr player_id_to_q_map"
  shows "(\<forall>strat. length (filter (\<lambda>call. fst call = strat) (fst (NiceState_q_maps impl self))) =
            (if strat \<in> set (map (\<lambda>item. strategy (snd item)) (player_infos self)) then 1 else 0)) \<and>
         (\<forall>call \<in> set (fst (NiceState_q_maps impl self)).
            snd call = map (\<lambda>item. observation (snd item))
                         (filter (\<lambda>item. strategy (snd item) = fst call) (player_infos self)))"
proof -
  let ?kf = "\<lambda>id_and_player_info. strategy (snd id_and_player_info)"
  let ?gs = "map_reduce ?kf (player_infos self)"
  let ?call = "\<lambda>g. (fst g, map (\<lambda>item. observation (snd item)) (snd g))"
  have calls: "fst (NiceState_q_maps impl self) = map ?call ?gs"
    using assms q_map_loop_calls[of impl ?gs Map.empty player_id_to_q_map]
    by (simp add: NiceState_q_maps_def)
  have gs: "distinct (map fst ?gs)"
    "\<forall>g \<in> set ?gs. snd g = filter (\<lambda>x. ?kf x = fst g) (player_infos self)"
    "set (map fst ?gs) = ?kf ` set (player_infos self)"
    using map_reduce_groups[of ?kf "player_infos self"] by blast+
  have "length (filter (\<lambda>call. fst call = strat) (map ?call ?gs)) =
          (if strat \<in> set (map ?kf (player_infos self)) then 1 else 0)" for strat
  proof -
    have "length (filter (\<lambda>call. fst call = strat) (map ?call ?gs)) =
          length (filter (\<lambda>g. fst g = strat) ?gs)"
      by (simp add: filter_map comp_def)
    also have "\<dots> = (if strat \<in> set (map fst ?gs) then 1 else 0)"
      using gs(1) by (rule count_distinct_keys)
    finally show ?thesis using gs(3) by simp
  qed
  moreover have "\<forall>call \<in> set (map ?call ?gs).
      snd call = map (\<lambda>item. observation (snd item))
                   (filter (\<lambda>item. strategy (snd item) = fst call) (player_infos self))"
    using gs(2) by auto
  ultimately show ?thesis unfolding calls by blast
qed

theorem one_batched_call_per_strategy_witness:
  "fst (NiceState_q_maps example_impl example_state) =
     [(0, [live_observation, other_observation]), (1, [terminal_observation])] \<and>
   length (filter (\<lambda>call. fst call = 0) (fst (NiceState_q_maps example_impl example_state))) = 1 \<and>
   (0, [live_observation, other_observation]) \<in> set (fst (NiceState_q_maps example_impl example_state))"
proof -
  have q: "snd (NiceState_q_maps example_impl example_state) =
      Inr [1 \<mapsto> [(Act_A, 0), (Act_B, 0)], 3 \<mapsto> [(Act_C, 0), (Act_B, 0)], 2 \<mapsto> []]"
    by (simp add: NiceState_q_maps_def map_reduce_def example_defs)
  have c: "fst (NiceState_q_maps example_impl example_state) =
     [(0, [live_observation, other_observation]), (1, [terminal_observation])]"
    by (simp add: NiceState_q_maps_def map_reduce_def example_defs)
  show ?thesis using one_batched_call_per_strategy [OF q] c by simp
qed

text \<open>
  Claim C10. When the strategies keep the contract of the batched variant, every player of
  \<open>player_infos\<close>, whether its observation is terminal or not, has its observation in
  the batched call of its strategy and has an entry in \<open>player_id_to_q_map\<close>; only the
  comprehension that decides the actions leaves the terminal players out.
\<close>

theorem terminal_players_are_queried:
  assumes "\<forall>item \<in> set (player_infos self).
             one_q_map_per_observation (impl (strategy (snd item)))"
  shows "\<exists>player_id_to_q_map.
           snd (NiceState_q_maps impl self) = Inr player_id_to_q_map \<and>
           (\<forall>item \<in> set (player_infos self).
              (\<exists>call \<in> set (fst (NiceState_q_maps impl self)).
                 fst call = strategy (snd item) \<and> observation (snd item) \<in> set (snd call)) \<and>
              player_id_to_q_map (fst item) \<noteq> None) \<and>
           (\<forall>m. NiceState_player_id_to_action impl player_id_to_q_map (player_infos self) = Inr m
              \<longrightarrow> map fst m =
                   map fst (filter (\<lambda>item. \<not> Observation.is_end (observation (snd item)))
                              (player_infos self)))"
proof -
  let ?kf = "\<lambda>id_and_player_info. strategy (snd id_and_player_info)"
  let ?gs = "map_reduce ?kf (player_infos self)"
  let ?call = "\<lambda>g. (fst g, map (\<lambda>item. observation (snd item)) (snd g))"
  obtain q where q: "snd (NiceState_q_maps impl self) = Inr q"
    and d: "dom q = fst ` set (player_infos self)"
    using state_q_maps_total[OF assms] by blast
  have calls: "fst (NiceState_q_maps impl self) = map ?call ?gs"
    using q q_map_loop_calls[of impl ?gs Map.empty q] by (simp add: NiceState_q_maps_def)
  have "\<exists>call \<in> set (fst (NiceState_q_maps impl self)).
          fst call = strategy (snd item) \<and> observation (snd item) \<in> set (snd call)"
    if item: "item \<in> set (player_infos self)" for item
  proof -
    obtain g where g: "g \<in> set ?gs" "fst g = strategy (snd item)" "item \<in> set (snd g)"
      using state_groups_cover[OF item] by blast
    have "?call g \<in> set (fst (NiceState_q_maps impl self))" using g(1) calls by simp
    moreover have "fst (?call g) = strategy (snd item)" using g(2) by simp
    moreover have "observation (snd item) \<in> set (snd (?call g))" using g(3) by simp
    ultimately show ?thesis by blast
  qed
  moreover have "q (fst item) \<noteq> None" if "item \<in> set (player_infos self)" for item
    using that d by (metis domIff image_eqI)
  moreover have "\<forall>m. NiceState_player_id_to_action impl q (player_infos self) = Inr m
              \<longrightarrow> map fst m =
                   map fst (filter (\<lambda>item. \<not> Observation.is_end (observation (snd item)))
                              (player_infos self))"
    using nice_decisions_keys by blast
  ultimately show ?thesis using q by blast
qed

theorem terminal_players_are_queried_witness:
  "(2, \<lparr>id_PlayerInfo = 2, observation = terminal_observation, strategy = 1\<rparr>)
     \<in> set (player_infos example_state) \<and>
   Observation.is_end terminal_observation \<and>
   (1, [terminal_observation]) \<in> set (fst (NiceState_q_maps example_impl example_state)) \<and>
   (\<exists>player_id_to_q_map.
      snd (NiceState_q_maps example_impl example_state) = Inr player_id_to_q_map \<and>
      player_id_to_q_map 2 \<noteq> None \<and>
      NiceState_player_id_to_action example_impl player_id_to_q_map (player_infos example_state) =
        Inr [(1, Act_A), (3, Act_C)])"
proof -
  have c: "\<forall>item \<in> set (player_infos example_state).
             one_q_map_per_observation (example_impl (strategy (snd item)))"
    by (simp add: one_q_map_per_observation_def example_defs)
  have q: "snd (NiceState_q_maps example_impl example_state) =
      Inr [1 \<mapsto> [(Act_A, 0), (Act_B, 0)], 3 \<mapsto> [(Act_C, 0), (Act_B, 0)], 2 \<mapsto> []]"
    by (simp add: NiceState_q_maps_def map_reduce_def example_defs)
  have calls: "fst (NiceState_q_maps example_impl example_state) =
     [(0, [live_observation, other_observation]), (1, [terminal_observation])]"
    by (simp add: NiceState_q_maps_def map_reduce_def example_defs)
  have a: "NiceState_player_id_to_action example_impl
        [1 \<mapsto> [(Act_A, 0), (Act_B, 0)], 3 \<mapsto> [(Act_C, 0), (Act_B, 0)], 2 \<mapsto> []]
        (player_infos example_state) = Inr [(1, Act_A), (3, Act_C)]"
    by (simp add: example_defs)
  have t: "Observation.is_end terminal_observation" by (simp add: terminal_observation_def)
  have p: "(2, \<lparr>id_PlayerInfo = 2, observation = terminal_observation, strategy = 1\<rparr>)
     \<in> set (player_infos example_state)" by (simp add: example_state_def)
  show ?thesis using terminal_players_are_queried [OF c] q calls a t p by auto
qed

subsection \<open>Rollouts\<close>

text \<open>
  \<open>get_next_state\<close> is only ever called on a state that was yielded, and a state is
  only yielded after the test of the \<open>while\<close> has found its \<open>player_infos\<close> non-empty.
\<close>

lemma consume_called_nonempty:
  assumes "\<forall>state. g = Suspended state \<longrightarrow> player_infos state \<noteq> []"
  shows "\<forall>state \<in> set (fst (consume k get_next_state g)). player_infos state \<noteq> []"
  using assms
proof (induction k arbitrary: g)
  case 0
  then show ?case by simp
next
  case (Suc k)
  show ?case
  proof (cases g)
    case (Created self)
    show ?thesis
    proof (cases "player_infos self = []")
      case True
      with Created show ?thesis by (simp add: while_test_def)
    next
      case False
      then have "\<forall>state \<in> set (fst (consume k get_next_state (Suspended self))).
                   player_infos state \<noteq> []"
        by (intro Suc.IH) simp
      with Created False show ?thesis
        by (simp add: while_test_def split: prod.splits)
    qed
  next
    case (Suspended state)
    then have ne: "player_infos state \<noteq> []" using Suc.prems by simp
    show ?thesis
    proof (cases "get_next_state state")
      case (Inl e)
      with Suspended ne show ?thesis by simp
    next
      case (Inr state')
      show ?thesis
      proof (cases "player_infos state' = []")
        case True
        with Suspended Inr ne show ?thesis by (simp add: while_test_def)
      next
        case False
        then have "\<forall>s \<in> set (fst (consume k get_next_state (Suspended state'))).
                     player_infos s \<noteq> []"
          by (intro Suc.IH) simp
        with Suspended Inr ne False show ?thesis
          by (simp add: while_test_def split: prod.splits)
      qed
    qed
  next
    case Finished
    then show ?thesis by simp
  qed
qed

lemma consume_yielded_nonempty:
  "\<forall>state \<in> set (fst (snd (consume k get_next_state g))). player_infos state \<noteq> []"
proof (induction k arbitrary: g)
  case 0
  then show ?case by simp
next
  case (Suc k)
  show ?case
  proof (cases g)
    case (Created self)
    with Suc.IH[of "Suspended self"] show ?thesis
      by (simp add: while_test_def split: prod.splits)
  next
    case (Suspended state)
    show ?thesis
    proof (cases "get_next_state state")
      case (Inl e)
      with Suspended show ?thesis by simp
    next
      case (Inr state')
      with Suspended Suc.IH[of "Suspended state'"] show ?thesis
        by (simp add: while_test_def split: prod.splits)
    qed
  next
    case Finished
    then show ?thesis by simp
  qed
qed

lemma consume_empty_player_infos:
  "player_infos self = [] \<Longrightarrow> consume k get_next_state (Created self) = ([], [], None)"
  by (cases k) (simp_all add: while_test_def)

text \<open>
  An \<open>islice\<close> of length \<open>stop\<close> yields at most \<open>stop\<close> states, and first the state it
  was started on; it raises only if \<open>get_next_state\<close> does.
\<close>

lemma consume_yielded_length: "length (fst (snd (consume k get_next_state g))) \<le> k"
proof (induction k arbitrary: g)
  case 0
  then show ?case by simp
next
  case (Suc k)
  obtain called r g' where n: "iterate_states_next get_next_state g = (called, r, g')"
    by (cases "iterate_states_next get_next_state g") auto
  show ?case
  proof (cases r)
    case (Yield state)
    with n Suc.IH[of g'] show ?thesis by (auto split: prod.splits)
  next
    case StopIteration
    with n show ?thesis by simp
  next
    case (Raise e)
    with n show ?thesis by simp
  qed
qed

lemma islice_length: "length (fst (islice get_next_state g stop)) \<le> stop"
  by (simp add: islice_def consume_yielded_length)

lemma islice_starts_with:
  "fst (islice get_next_state (Created state) stop) = [] \<or>
   hd (fst (islice get_next_state (Created state) stop)) = state"
  by (cases stop) (simp_all add: islice_def while_test_def split: prod.splits)

lemma consume_no_error:
  assumes "\<forall>state. \<exists>state'. get_next_state state = Inr state'"
  shows "snd (snd (consume k get_next_state g)) = None"
proof (induction k arbitrary: g)
  case 0
  then show ?case by simp
next
  case (Suc k)
  obtain called r g' where n: "iterate_states_next get_next_state g = (called, r, g')"
    by (cases "iterate_states_next get_next_state g") auto
  show ?case
  proof (cases r)
    case (Yield state)
    with n Suc.IH[of g'] show ?thesis by (auto split: prod.splits)
  next
    case StopIteration
    with n show ?thesis by simp
  next
    case (Raise e)
    have False
    proof (cases g)
      case (Created self)
      with n Raise show False by (simp add: while_test_def split: if_splits)
    next
      case (Suspended state)
      obtain state' where "get_next_state state = Inr state'" using assms by blast
      with Suspended n Raise show False by (simp add: while_test_def split: if_splits)
    next
      case Finished
      with n Raise show False by simp
    qed
    then show ?thesis ..
  qed
qed

lemma islice_no_error:
  "\<forall>state. \<exists>state'. get_next_state state = Inr state' \<Longrightarrow>
   snd (islice get_next_state g stop) = None"
  by (simp add: islice_def consume_no_error)

lemma concat_length_bound:
  "\<forall>r \<in> set rs. length r \<le> b \<Longrightarrow> length (concat rs) \<le> length rs * b"
  by (induction rs) (auto simp: add_mono)

lemma train_loop_rollouts:
  assumes "0 \<le> max_game_length"
  shows "\<exists>rollouts err.
           train_loop get_next_state state_factory max_game_length rounds = Some (rollouts, err) \<and>
           length rollouts \<le> length rounds \<and>
           (err = None \<longrightarrow> length rollouts = length rounds) \<and>
           (\<forall>j < length rollouts. \<exists>state.
              state_factory (rounds ! j) = Inr state \<and>
              rollouts ! j = fst (islice get_next_state (Created state) (nat max_game_length))) \<and>
           ((\<forall>i \<in> set rounds. \<exists>state. state_factory i = Inr state) \<and>
            (\<forall>state. \<exists>state'. get_next_state state = Inr state') \<longrightarrow> err = None)"
proof (induction rounds)
  case Nil
  then show ?case by simp
next
  case (Cons i rounds)
  show ?case
  proof (cases "state_factory i")
    case (Inl e)
    then show ?thesis by simp
  next
    case (Inr state)
    obtain yielded e where sl: "islice get_next_state (Created state) (nat max_game_length) = (yielded, e)"
      by (cases "islice get_next_state (Created state) (nat max_game_length)") auto
    have ext: "islice_extended get_next_state (Created state) max_game_length = Some (yielded, e)"
      using assms sl by (simp add: islice_extended_def)
    show ?thesis
    proof (cases e)
      case (Some x)
      have "\<not> (\<forall>state. \<exists>state'. get_next_state state = Inr state')"
        using islice_no_error[of get_next_state "Created state" "nat max_game_length"] sl Some
        by auto
      then show ?thesis using Inr ext sl Some by auto
    next
      case None
      obtain rollouts err where IH:
        "train_loop get_next_state state_factory max_game_length rounds = Some (rollouts, err)"
        "length rollouts \<le> length rounds"
        "err = None \<longrightarrow> length rollouts = length rounds"
        "\<forall>j < length rollouts. \<exists>state.
              state_factory (rounds ! j) = Inr state \<and>
              rollouts ! j = fst (islice get_next_state (Created state) (nat max_game_length))"
        "(\<forall>i \<in> set rounds. \<exists>state. state_factory i = Inr state) \<and>
            (\<forall>state. \<exists>state'. get_next_state state = Inr state') \<longrightarrow> err = None"
        using Cons.IH by blast
      have r: "train_loop get_next_state state_factory max_game_length (i # rounds) =
                 Some (yielded # rollouts, err)"
        using Inr ext None IH(1) by simp
      have nth: "\<forall>j < length (yielded # rollouts). \<exists>state.
              state_factory ((i # rounds) ! j) = Inr state \<and>
              (yielded # rollouts) ! j = fst (islice get_next_state (Created state) (nat max_game_length))"
      proof (intro allI impI)
        fix j assume j: "j < length (yielded # rollouts)"
        show "\<exists>state. state_factory ((i # rounds) ! j) = Inr state \<and>
              (yielded # rollouts) ! j = fst (islice get_next_state (Created state) (nat max_game_length))"
        proof (cases j)
          case 0
          then show ?thesis using Inr sl by simp
        next
          case (Suc j')
          then show ?thesis using j IH(4) by simp
        qed
      qed
      show ?thesis using r IH(2,3,5) nth by auto
    qed
  qed
qed

text \<open>
  The example game: two states are yielded, the second with \<open>is_end\<close> true, and then
  the players are gone.
\<close>

lemma example_step_1:
  "State_get_next_state example_impl example_rule example_state = Inr example_state_over"
  by (simp add: State_get_next_state_def example_defs)

lemma example_step_2:
  "State_get_next_state example_impl example_rule example_state_over = Inr example_state_empty"
  by (simp add: State_get_next_state_def example_defs)

lemma example_player_infos:
  "player_infos example_state \<noteq> []" "player_infos example_state_over \<noteq> []"
  "player_infos example_state_empty = []"
  by (simp_all add: example_defs)

lemma example_next_created:
  "iterate_states_next (State_get_next_state example_impl example_rule)
     (Created example_state) =
   ([], Yield example_state, Suspended example_state)"
  by (simp add: while_test_def example_player_infos)

lemma example_next_suspended:
  "iterate_states_next (State_get_next_state example_impl example_rule)
     (Suspended example_state) =
   ([example_state], Yield example_state_over, Suspended example_state_over)"
  by (simp add: while_test_def example_player_infos example_step_1)

lemma example_next_over:
  "iterate_states_next (State_get_next_state example_impl example_rule)
     (Suspended example_state_over) =
   ([example_state_over], StopIteration, Finished)"
  by (simp add: while_test_def example_player_infos example_step_2)

lemma example_consume:
  "consume 3 (State_get_next_state example_impl example_rule) (Created example_state) =
     ([example_state, example_state_over], [example_state, example_state_over], None)"
  by (simp add: numeral_3_eq_3 example_next_created example_next_suspended example_next_over del: iterate_states_next.simps)

lemma example_islice_1:
  "islice (State_get_next_state example_impl example_rule) (Created example_state) (Suc 0) =
     ([example_state], None)"
  by (simp add: islice_def example_next_created del: iterate_states_next.simps)

text \<open>
  With a negative \<open>stop\<close>, \<open>islice_extended\<close> reads the iteration to its end and holds the
  last items back: of the two states of the example game, \<open>[:-1]\<close> yields the first.
\<close>

lemma example_exhaust_over:
  "exhaust (State_get_next_state example_impl example_rule) (Suspended example_state_over) =
     Some ([], None)"
  by (subst exhaust.simps) (simp add: example_next_over del: iterate_states_next.simps)

lemma example_exhaust_suspended:
  "exhaust (State_get_next_state example_impl example_rule) (Suspended example_state) =
     Some ([example_state_over], None)"
  by (subst exhaust.simps)
    (simp add: example_next_suspended example_exhaust_over del: iterate_states_next.simps)

lemma example_exhaust:
  "exhaust (State_get_next_state example_impl example_rule) (Created example_state) =
     Some ([example_state, example_state_over], None)"
  by (subst exhaust.simps)
    (simp add: example_next_created example_exhaust_suspended del: iterate_states_next.simps)

lemma example_islice_extended_negative:
  "islice_extended (State_get_next_state example_impl example_rule) (Created example_state) (- 1) =
     Some ([example_state], None)"
  by (simp add: islice_extended_def example_exhaust)

text \<open>
  Claim C3, as stated: once a state of the chain has \<open>is_end\<close> true, no transition is
  attempted on it. In the example game the second state of the chain has \<open>is_end\<close> true
  and players left; \<open>iterate_states\<close> yields it and calls \<open>get_next_state\<close> on it (the
  first component lists the states on which \<open>get_next_state\<close> was called).
\<close>

theorem iterate_states_ignores_is_end:
  "consume 3 (State_get_next_state example_impl example_rule) (Created example_state) =
     ([example_state, example_state_over], [example_state, example_state_over], None) \<and>
   State.is_end example_state_over"
proof
  show "consume 3 (State_get_next_state example_impl example_rule) (Created example_state) =
     ([example_state, example_state_over], [example_state, example_state_over], None)"
    by (simp add: numeral_3_eq_3 example_next_created example_next_suspended example_next_over del: iterate_states_next.simps)
  show "State.is_end example_state_over"
    by (simp add: example_state_over_def)
qed

text \<open>
  Claim C3, amended: \<open>iterate_states\<close> tests \<open>player_infos\<close> only. On a state with an
  empty \<open>player_infos\<close> it yields nothing and calls nothing, however often \<open>next\<close> is
  called; and in every run \<open>get_next_state\<close> is called, and a state is yielded, only
  with a non-empty \<open>player_infos\<close>.
\<close>

theorem iterate_states_stops_without_players:
  "(player_infos self = [] \<longrightarrow> consume k get_next_state (Created self) = ([], [], None)) \<and>
   (\<forall>state \<in> set (fst (consume k get_next_state (Created self))). player_infos state \<noteq> []) \<and>
   (\<forall>state \<in> set (fst (snd (consume k get_next_state (Created self)))). player_infos state \<noteq> [])"
proof (intro conjI impI)
  assume "player_infos self = []"
  then show "consume k get_next_state (Created self) = ([], [], None)"
    by (rule consume_empty_player_infos)
next
  show "\<forall>state \<in> set (fst (consume k get_next_state (Created self))). player_infos state \<noteq> []"
    by (rule consume_called_nonempty) simp
next
  show "\<forall>state \<in> set (fst (snd (consume k get_next_state (Created self)))).
          player_infos state \<noteq> []"
    by (rule consume_yielded_nonempty)
qed

theorem iterate_states_stops_without_players_witness:
  "player_infos example_state_empty = [] \<and>
   consume 3 (State_get_next_state example_impl example_rule) (Created example_state_empty) =
     ([], [], None) \<and>
   fst (consume 3 (State_get_next_state example_impl example_rule) (Created example_state)) =
     [example_state, example_state_over] \<and>
   player_infos example_state \<noteq> [] \<and> player_infos example_state_over \<noteq> []"
  using iterate_states_stops_without_players [of example_state_empty 3 "State_get_next_state example_impl example_rule"]
    iterate_states_stops_without_players [of example_state 3 "State_get_next_state example_impl example_rule"]
  by (simp add: example_consume example_player_infos)

text \<open>
  Claim C8. For \<open>n >= 0\<close> and \<open>max_game_length >= 0\<close>, \<open>train\<close> consumed to its end
  returns. It runs at most \<open>n\<close> rollouts, and exactly \<open>n\<close> when no exception ends the
  run, which is so when neither the state factory nor \<open>get_next_state\<close> raises. Rollout
  \<open>j\<close> is the \<open>islice\<close> of length \<open>max_game_length\<close> of \<open>iterate_states\<close> on the state
  that the \<open>j\<close>-th call of the factory returned (\<open>state_factory\<close>, or \<open>make_initial\<close> on
  the strategies when there is none) and, if it is not empty, begins with that state. Each
  rollout has at most \<open>max_game_length\<close> states, and all together at most
  \<open>n * max_game_length\<close>.
\<close>

theorem train_rollouts_bounded:
  assumes "0 \<le> n" and "0 \<le> max_game_length"
  shows "\<exists>rollouts err.
     train get_next_state make_initial strategies n max_game_length state_factory =
       Some (rollouts, err) \<and>
     length rollouts \<le> nat n \<and>
     ((\<forall>i < nat n. \<exists>state.
         (case state_factory of None \<Rightarrow> make_initial strategies | Some f \<Rightarrow> f) i = Inr state) \<and>
      (\<forall>state. \<exists>state'. get_next_state state = Inr state') \<longrightarrow> err = None) \<and>
     (err = None \<longrightarrow> int (length rollouts) = n) \<and>
     (\<forall>j < length rollouts. \<exists>state.
        (case state_factory of None \<Rightarrow> make_initial strategies | Some f \<Rightarrow> f) j = Inr state \<and>
        rollouts ! j = fst (islice get_next_state (Created state) (nat max_game_length)) \<and>
        (rollouts ! j = [] \<or> hd (rollouts ! j) = state)) \<and>
     (\<forall>r \<in> set rollouts. int (length r) \<le> max_game_length) \<and>
     int (length (concat rollouts)) \<le> n * max_game_length"
proof -
  let ?sf = "case state_factory of None \<Rightarrow> make_initial strategies | Some f \<Rightarrow> f"
  have tr: "train get_next_state make_initial strategies n max_game_length state_factory =
              train_loop get_next_state ?sf max_game_length [0..<nat n]"
    by (simp add: train_def split: option.splits)
  obtain rollouts err where R:
    "train_loop get_next_state ?sf max_game_length [0..<nat n] = Some (rollouts, err)"
    "length rollouts \<le> length [0..<nat n]"
    "err = None \<longrightarrow> length rollouts = length [0..<nat n]"
    "\<forall>j < length rollouts. \<exists>state.
        ?sf ([0..<nat n] ! j) = Inr state \<and>
        rollouts ! j = fst (islice get_next_state (Created state) (nat max_game_length))"
    "(\<forall>i \<in> set [0..<nat n]. \<exists>state. ?sf i = Inr state) \<and>
     (\<forall>state. \<exists>state'. get_next_state state = Inr state') \<longrightarrow> err = None"
    using train_loop_rollouts[OF assms(2), of get_next_state ?sf "[0..<nat n]"] by blast
  have len: "length rollouts \<le> nat n" using R(2) by simp
  have each: "\<exists>state. ?sf j = Inr state \<and>
        rollouts ! j = fst (islice get_next_state (Created state) (nat max_game_length)) \<and>
        (rollouts ! j = [] \<or> hd (rollouts ! j) = state)" if j: "j < length rollouts" for j
  proof -
    have "[0..<nat n] ! j = j" using j len by simp
    then obtain state where s: "?sf j = Inr state"
      "rollouts ! j = fst (islice get_next_state (Created state) (nat max_game_length))"
      using R(4) j by metis
    have "rollouts ! j = [] \<or> hd (rollouts ! j) = state"
      using islice_starts_with[of get_next_state state "nat max_game_length"] s(2) by simp
    with s show ?thesis by blast
  qed
  have bound: "length r \<le> nat max_game_length" if r: "r \<in> set rollouts" for r
  proof -
    obtain j where j: "j < length rollouts" "r = rollouts ! j"
      using r by (auto simp: in_set_conv_nth)
    then show ?thesis using each[OF j(1)] islice_length by metis
  qed
  have "int (length r) \<le> max_game_length" if r: "r \<in> set rollouts" for r
    using bound[OF r] assms(2) by linarith
  then have each_int: "\<forall>r \<in> set rollouts. int (length r) \<le> max_game_length"
    by blast
  have "length (concat rollouts) \<le> length rollouts * nat max_game_length"
    using bound by (intro concat_length_bound) blast
  also have "\<dots> \<le> nat n * nat max_game_length" using len by simp
  finally have "int (length (concat rollouts)) \<le> int (nat n * nat max_game_length)"
    by (simp only: of_nat_le_iff)
  also have "int (nat n * nat max_game_length) = n * max_game_length"
    using assms by simp
  finally have total: "int (length (concat rollouts)) \<le> n * max_game_length" .
  have noerr: "(\<forall>i < nat n. \<exists>state. ?sf i = Inr state) \<and>
      (\<forall>state. \<exists>state'. get_next_state state = Inr state') \<longrightarrow> err = None"
    using R(5) by simp
  have exact: "err = None \<longrightarrow> int (length rollouts) = n"
    using R(3) assms(1) by simp
  show ?thesis using tr R(1) len noerr exact each each_int total by auto
qed

theorem train_rollouts_bounded_witness:
  "train (State_get_next_state example_impl example_rule) (\<lambda>strategies i. Inr example_state)
     () 2 1 None = Some ([[example_state], [example_state]], None) \<and>
   int (length (concat [[example_state], [example_state]])) \<le> 2 * 1"
proof -
  have e: "train (State_get_next_state example_impl example_rule) (\<lambda>strategies i. Inr example_state)
     () 2 1 None = Some ([[example_state], [example_state]], None)"
    by (simp add: train_def islice_extended_def example_islice_1 upt_rec)
  have "(0::int) \<le> 2" and "(0::int) \<le> 1" by simp_all
  from train_rollouts_bounded [OF this, of "State_get_next_state example_impl example_rule"
      "\<lambda>strategies i. Inr example_state" "()" None] e
  show ?thesis by simp
qed

end
